theory Spec2Isabelle
  imports Main "HOL-Library.Word" "HOL-Library.Sublist"
begin

section \<open>Data model\<close>

text \<open>
  The program is the single file \<^verbatim>\<open>FastLZMA2Tool.cpp\<close>: a command-line driver that pumps
  a file through the streaming interface of the fast-lzma2 library.  The library itself is
  not part of the program; it is taken as a parameter (a record of functions over an
  abstract engine state).  Bytes are \<^verbatim>\<open>unsigned char\<close>.  Values of type \<^verbatim>\<open>size_t\<close> are
  natural numbers: the buffer positions are bounded by the 8192-byte arrays and the two
  byte counters by the sizes of the files, so no 64-bit arithmetic of the program wraps.
\<close>

type_synonym byte = "8 word"
type_synonym size_t = nat

text \<open>
  \<^verbatim>\<open>FL2_inBuffer\<close> and \<^verbatim>\<open>FL2_outBuffer\<close> are declared in the library header as
  \<^verbatim>\<open>{ src, size, pos }\<close> and \<^verbatim>\<open>{ dst, size, pos }\<close>.  The pointer field is modelled by the
  content of the array it points to (\<^verbatim>\<open>in_buffer\<close>, \<^verbatim>\<open>out_buffer\<close>).
\<close>

record FL2_inBuffer =
  src :: "byte list"
  size_in :: size_t
  pos_in :: size_t

record FL2_outBuffer =
  dst :: "byte list"
  size_out :: size_t
  pos_out :: size_t

text \<open>
  The input stream \<^verbatim>\<open>fin\<close> is the list of bytes of the file that have not been read yet.
  The output stream \<^verbatim>\<open>fout\<close> records the bytes that reached the file, whether the stream
  is still good, and how many more bytes the device accepts (\<open>None\<close>: no limit).
\<close>

record ifstream =
  unread :: "byte list"

record ofstream =
  written :: "byte list"
  good :: bool
  room :: "nat option"

text \<open>
  Observable actions of a run, in the order in which they happen.  \<open>Ev_fin_close\<close> and
  \<open>Ev_fout_close\<close> stand for the closing of the file a stream holds, by a call of
  \<^verbatim>\<open>close\<close> or by the destructor of the stream; \<open>Ev_exit\<close> is the end of the process after
  a call of \<^verbatim>\<open>exit\<close>.
\<close>

datatype event =
    Ev_createCStreamMt int
  | Ev_createDStreamMt int
  | Ev_initCStream int size_t
  | Ev_initDStream size_t
  | Ev_compressStream size_t
  | Ev_endStream size_t
  | Ev_decompressStream size_t
  | Ev_getErrorName size_t
  | Ev_freeCStream
  | Ev_freeDStream
  | Ev_open_in string bool
  | Ev_open_out string bool
  | Ev_fout_flush
  | Ev_fout_close
  | Ev_fin_close
  | Ev_stdout string
  | Ev_stdout_counts string size_t size_t
  | Ev_stderr string
  | Ev_exit int

text \<open>
  The library interface used by the program.  \<open>'c\<close> is the state behind an
  \<^verbatim>\<open>FL2_CStream*\<close>, \<open>'d\<close> the state behind an \<^verbatim>\<open>FL2_DStream*\<close>.  A call that takes a
  pointer to a buffer structure returns the structure as the call left it.  A creation
  function returns \<open>None\<close> for \<^verbatim>\<open>NULL\<close>.
\<close>

record ('c, 'd) FL2_api =
  FL2_createCStreamMt :: "int \<Rightarrow> 'c option"
  FL2_createDStreamMt :: "int \<Rightarrow> 'd option"
  FL2_initCStream :: "'c \<Rightarrow> int \<Rightarrow> size_t \<times> 'c"
  FL2_initDStream :: "'d \<Rightarrow> size_t \<times> 'd"
  FL2_compressStream ::
    "'c \<Rightarrow> FL2_outBuffer \<Rightarrow> FL2_inBuffer \<Rightarrow> size_t \<times> 'c \<times> FL2_outBuffer \<times> FL2_inBuffer"
  FL2_endStream :: "'c \<Rightarrow> FL2_outBuffer \<Rightarrow> size_t \<times> 'c \<times> FL2_outBuffer"
  FL2_decompressStream ::
    "'d \<Rightarrow> FL2_outBuffer \<Rightarrow> FL2_inBuffer \<Rightarrow> size_t \<times> 'd \<times> FL2_outBuffer \<times> FL2_inBuffer"
  FL2_isError :: "size_t \<Rightarrow> bool"
  FL2_getErrorName :: "size_t \<Rightarrow> string"

section \<open>Stream helpers\<close>

text \<open>
  \<^verbatim>\<open>ffread(buffer, size)\<close>: \<^verbatim>\<open>fin.read(buffer, size).gcount()\<close>.  Up to \<open>n\<close> bytes are
  copied to the front of the array; the rest of the array keeps its content.  The result
  is the new array, the count, and the stream.
\<close>

definition ffread :: "ifstream \<Rightarrow> byte list \<Rightarrow> size_t \<Rightarrow> byte list \<times> size_t \<times> ifstream" where
  "ffread fin buffer n =
     (let got = take n (unread fin) in
      (got @ drop (length got) buffer, length got, fin\<lparr>unread := drop n (unread fin)\<rparr>))"

text \<open>
  \<^verbatim>\<open>fout.write(buffer, size)\<close>: a stream that is not good ignores the request; a device
  without room for the whole request takes what fits and leaves the stream bad.
\<close>

definition ofstream_write :: "ofstream \<Rightarrow> byte list \<Rightarrow> ofstream" where
  "ofstream_write fout bs =
     (if \<not> good fout then fout
      else (case room fout of
              None \<Rightarrow> fout\<lparr>written := written fout @ bs\<rparr>
            | Some k \<Rightarrow>
                if length bs \<le> k
                then fout\<lparr>written := written fout @ bs, room := Some (k - length bs)\<rparr>
                else fout\<lparr>written := written fout @ take k bs, good := False, room := Some 0\<rparr>))"

text \<open>
  \<^verbatim>\<open>ffwrite(buffer, size)\<close>: writes and returns \<open>size\<close>, whatever the stream did.
\<close>

definition ffwrite :: "ofstream \<Rightarrow> byte list \<Rightarrow> size_t \<Rightarrow> size_t \<times> ofstream" where
  "ffwrite fout buffer n = (n, ofstream_write fout (take n buffer))"

section \<open>The pumps\<close>

text \<open>
  The local variables of \<^verbatim>\<open>compress_file\<close> and \<^verbatim>\<open>decompress_file\<close>, with the engine
  state behind the handle they are given, the two global streams, and the actions so far.
  The \<^verbatim>\<open>Timer\<close> object only prints elapsed wall-clock time and is left out.
\<close>

record 'e pump =
  in_buf :: FL2_inBuffer
  out_buf :: FL2_outBuffer
  res :: size_t
  in_size :: size_t
  out_size :: size_t
  ctx :: 'e
  fin :: ifstream
  fout :: ofstream
  log :: "event list"

text \<open>
  A \<^verbatim>\<open>do { body } while (cond);\<close> loop over a state.  The body either jumps out of the
  loop (\<open>Inl\<close>) or reaches the test (\<open>Inr\<close>).  \<open>None\<close>: the loop does not end.
\<close>

partial_function (option) do_while ::
  "('s \<Rightarrow> 's + 's) \<Rightarrow> ('s \<Rightarrow> bool) \<Rightarrow> 's \<Rightarrow> ('s + 's) option" where
  "do_while body cond s =
     (case body s of
        Inl e \<Rightarrow> Some (Inl e)
      | Inr s' \<Rightarrow> if cond s' then do_while body cond s' else Some (Inr s'))"

declare do_while.simps [code]

text \<open>The refill at the top of both loops (\<^verbatim>\<open>if (in_buf.pos == in_buf.size) ...\<close>).\<close>

definition refill :: "size_t \<Rightarrow> 'e pump \<Rightarrow> 'e pump" where
  "refill cap s =
     (if pos_in (in_buf s) = size_in (in_buf s)
      then (case ffread (fin s) (src (in_buf s)) cap of
              (buffer, n, fin') \<Rightarrow>
                s\<lparr>in_buf := \<lparr>src = buffer, size_in = n, pos_in = 0\<rparr>,
                  in_size := in_size s + n,
                  fin := fin'\<rparr>)
      else s)"

text \<open>The write, the count and the reset that follow every successful engine call.\<close>

definition drain :: "'e pump \<Rightarrow> 'e pump" where
  "drain s =
     (case ffwrite (fout s) (dst (out_buf s)) (pos_out (out_buf s)) of
        (_, fout') \<Rightarrow>
          s\<lparr>fout := fout',
            out_size := out_size s + pos_out (out_buf s),
            out_buf := (out_buf s)\<lparr>pos_out := 0\<rparr>\<rparr>)"

text \<open>
  \<^verbatim>\<open>compress_file\<close>, initial values of the locals: \<^verbatim>\<open>in_buffer[8 * 1024]\<close>,
  \<^verbatim>\<open>out_buffer[4 * 1024]\<close> (uninitialised arrays, given as parameters),
  \<^verbatim>\<open>in_buf = { in_buffer, sizeof(in_buffer), sizeof(in_buffer) }\<close>,
  \<^verbatim>\<open>out_buf = { out_buffer, sizeof(out_buffer), 0 }\<close>.
\<close>

definition compress_init ::
  "byte list \<Rightarrow> byte list \<Rightarrow> 'c \<Rightarrow> ifstream \<Rightarrow> ofstream \<Rightarrow> event list \<Rightarrow> 'c pump" where
  "compress_init in_buffer out_buffer fcs fi fo lg =
     \<lparr>in_buf = \<lparr>src = in_buffer, size_in = 8 * 1024, pos_in = 8 * 1024\<rparr>,
      out_buf = \<lparr>dst = out_buffer, size_out = 4 * 1024, pos_out = 0\<rparr>,
      res = 0, in_size = 0, out_size = 0,
      ctx = fcs, fin = fi, fout = fo, log = lg\<rparr>"

text \<open>
  One pass through the body of the first loop of \<^verbatim>\<open>compress_file\<close>.
  \<open>Inl\<close> is the jump to \<^verbatim>\<open>error_out\<close>.
\<close>

definition compress_body :: "('c, 'd) FL2_api \<Rightarrow> 'c pump \<Rightarrow> 'c pump + 'c pump" where
  "compress_body api s =
     (let s1 = refill (8 * 1024) s in
      case FL2_compressStream api (ctx s1) (out_buf s1) (in_buf s1) of
        (r, c, ob, ib) \<Rightarrow>
          let s2 = s1\<lparr>res := r, ctx := c, out_buf := ob, in_buf := ib,
                      log := log s1 @ [Ev_compressStream r]\<rparr>
          in if FL2_isError api r then Inl s2 else Inr (drain s2))"

text \<open>\<^verbatim>\<open>do { ... } while (in_buf.size);\<close>\<close>

definition compress_loop ::
  "('c, 'd) FL2_api \<Rightarrow> 'c pump \<Rightarrow> ('c pump + 'c pump) option" where
  "compress_loop api = do_while (compress_body api) (\<lambda>s. size_in (in_buf s) \<noteq> 0)"

text \<open>One pass through the body of the second loop of \<^verbatim>\<open>compress_file\<close>.\<close>

definition finish_body :: "('c, 'd) FL2_api \<Rightarrow> 'c pump \<Rightarrow> 'c pump + 'c pump" where
  "finish_body api s =
     (case FL2_endStream api (ctx s) (out_buf s) of
        (r, c, ob) \<Rightarrow>
          let s2 = s\<lparr>res := r, ctx := c, out_buf := ob, log := log s @ [Ev_endStream r]\<rparr>
          in if FL2_isError api r then Inl s2 else Inr (drain s2))"

text \<open>\<^verbatim>\<open>do { ... } while (res);\<close>\<close>

definition finish_loop ::
  "('c, 'd) FL2_api \<Rightarrow> 'c pump \<Rightarrow> ('c pump + 'c pump) option" where
  "finish_loop api = do_while (finish_body api) (\<lambda>s. res s \<noteq> 0)"

text \<open>The label \<^verbatim>\<open>error_out\<close>: the name of the error goes to standard error; result 1.\<close>

definition error_out :: "('c, 'd) FL2_api \<Rightarrow> 'e pump \<Rightarrow> int \<times> 'e pump" where
  "error_out api s =
     (1, s\<lparr>log := log s @ [Ev_getErrorName (res s),
                            Ev_stderr (''Error: '' @ FL2_getErrorName api (res s) @ ''\<newline>'')]\<rparr>)"

text \<open>\<^verbatim>\<open>compress_file\<close>, from the initial locals.  \<open>None\<close>: it does not return.\<close>

definition compress_from :: "('c, 'd) FL2_api \<Rightarrow> 'c pump \<Rightarrow> (int \<times> 'c pump) option" where
  "compress_from api s0 =
     (case compress_loop api s0 of
        None \<Rightarrow> None
      | Some (Inl e) \<Rightarrow> Some (error_out api e)
      | Some (Inr s) \<Rightarrow>
          (case finish_loop api s of
             None \<Rightarrow> None
           | Some (Inl e) \<Rightarrow> Some (error_out api e)
           | Some (Inr t) \<Rightarrow>
               Some (0, t\<lparr>log := log t @
                   [Ev_stdout_counts ''Compressed: %lld -> %lld\<newline>'' (in_size t) (out_size t)]\<rparr>)))"

definition compress_file ::
  "('c, 'd) FL2_api \<Rightarrow> byte list \<Rightarrow> byte list \<Rightarrow> 'c \<Rightarrow> ifstream \<Rightarrow> ofstream \<Rightarrow> event list
     \<Rightarrow> (int \<times> 'c pump) option" where
  "compress_file api in_buffer out_buffer fcs fi fo lg =
     compress_from api (compress_init in_buffer out_buffer fcs fi fo lg)"

text \<open>
  \<^verbatim>\<open>decompress_file\<close>: \<^verbatim>\<open>in_buffer[4 * 1024]\<close>, \<^verbatim>\<open>out_buffer[8 * 1024]\<close>; \<^verbatim>\<open>res\<close> starts
  uninitialised and is assigned before it is read, so its first value (here 0) is never seen.
\<close>

definition decompress_init ::
  "byte list \<Rightarrow> byte list \<Rightarrow> 'd \<Rightarrow> ifstream \<Rightarrow> ofstream \<Rightarrow> event list \<Rightarrow> 'd pump" where
  "decompress_init in_buffer out_buffer fds fi fo lg =
     \<lparr>in_buf = \<lparr>src = in_buffer, size_in = 4 * 1024, pos_in = 4 * 1024\<rparr>,
      out_buf = \<lparr>dst = out_buffer, size_out = 8 * 1024, pos_out = 0\<rparr>,
      res = 0, in_size = 0, out_size = 0,
      ctx = fds, fin = fi, fout = fo, log = lg\<rparr>"

definition decompress_body :: "('c, 'd) FL2_api \<Rightarrow> 'd pump \<Rightarrow> 'd pump + 'd pump" where
  "decompress_body api s =
     (let s1 = refill (4 * 1024) s in
      case FL2_decompressStream api (ctx s1) (out_buf s1) (in_buf s1) of
        (r, d, ob, ib) \<Rightarrow>
          let s2 = s1\<lparr>res := r, ctx := d, out_buf := ob, in_buf := ib,
                      log := log s1 @ [Ev_decompressStream r]\<rparr>
          in if FL2_isError api r then Inl s2 else Inr (drain s2))"

text \<open>\<^verbatim>\<open>do { ... } while (res && in_buf.size);\<close>\<close>

definition decompress_loop ::
  "('c, 'd) FL2_api \<Rightarrow> 'd pump \<Rightarrow> ('d pump + 'd pump) option" where
  "decompress_loop api =
     do_while (decompress_body api) (\<lambda>s. res s \<noteq> 0 \<and> size_in (in_buf s) \<noteq> 0)"

definition decompress_from :: "('c, 'd) FL2_api \<Rightarrow> 'd pump \<Rightarrow> (int \<times> 'd pump) option" where
  "decompress_from api s0 =
     (case decompress_loop api s0 of
        None \<Rightarrow> None
      | Some (Inl e) \<Rightarrow> Some (error_out api e)
      | Some (Inr t) \<Rightarrow>
          Some (0, t\<lparr>log := log t @
              [Ev_stdout_counts (CHR 0x09 # ''Decompressed: %lld -> %lld\<newline>'')
                 (in_size t) (out_size t)]\<rparr>))"

definition decompress_file ::
  "('c, 'd) FL2_api \<Rightarrow> byte list \<Rightarrow> byte list \<Rightarrow> 'd \<Rightarrow> ifstream \<Rightarrow> ofstream \<Rightarrow> event list
     \<Rightarrow> (int \<times> 'd pump) option" where
  "decompress_file api in_buffer out_buffer fds fi fo lg =
     decompress_from api (decompress_init in_buffer out_buffer fds fi fo lg)"

section \<open>The program around the pumps\<close>

text \<open>
  \<^verbatim>\<open>exit(1)\<close>.  The objects with static storage duration are destroyed in the reverse
  order of their construction, \<^verbatim>\<open>fout\<close> before \<^verbatim>\<open>fin\<close>, and the destructor of a stream
  that holds an open file closes it; then the process ends with status 1.  The two flags
  say which of the streams holds an open file when \<^verbatim>\<open>exit\<close> is called.
\<close>

definition exit_1 :: "bool \<Rightarrow> bool \<Rightarrow> event list \<Rightarrow> event list" where
  "exit_1 fin_open fout_open lg =
     lg @ (if fout_open then [Ev_fout_close] else [])
        @ (if fin_open then [Ev_fin_close] else [])
        @ [Ev_exit 1]"

text \<open>\<^verbatim>\<open>exit_fail\<close>: the message goes to standard error and the process exits with 1.\<close>

definition exit_fail :: "string \<Rightarrow> bool \<Rightarrow> bool \<Rightarrow> event list \<Rightarrow> event list" where
  "exit_fail msg fin_open fout_open lg = exit_1 fin_open fout_open (lg @ [Ev_stderr msg])"

text \<open>
  \<^verbatim>\<open>std::string::find\<close>: the first index at which the pattern occurs, \<open>None\<close> for
  \<^verbatim>\<open>npos\<close>.
\<close>

fun str_find :: "string \<Rightarrow> string \<Rightarrow> nat option" where
  "str_find [] pat = (if pat = [] then Some 0 else None)"
| "str_find (c # cs) pat =
     (if prefix pat (c # cs) then Some 0 else map_option Suc (str_find cs pat))"

definition postfix :: string where
  "postfix = ''.lzma2''"

text \<open>
  \<^verbatim>\<open>std::equal(first1, last1, first2)\<close>: the elements of the first range are compared
  with those of the second one by one, and the first mismatch ends the comparison.  The
  second range has no end of its own: when it is exhausted before a mismatch is found the
  next read lies outside it and the call has no defined result (\<open>None\<close>).
\<close>

fun std_equal :: "'a list \<Rightarrow> 'a list \<Rightarrow> bool option" where
  "std_equal [] ys = Some True"
| "std_equal (x # xs) [] = None"
| "std_equal (x # xs) (y # ys) = (if x = y then std_equal xs ys else Some False)"

text \<open>\<^verbatim>\<open>std::equal(postfix.rbegin(), postfix.rend(), out_name.rbegin())\<close>.\<close>

definition ends_with_postfix :: "string \<Rightarrow> bool option" where
  "ends_with_postfix nm = std_equal (rev postfix) (rev nm)"

text \<open>
  Lines 240 to 260 of \<^verbatim>\<open>main\<close>: the output name for the mode, from the name found on the
  command line.  \<open>cwd\<close> is \<^verbatim>\<open>std::filesystem::current_path().string()\<close>.
\<close>

definition resolve_out_name :: "bool \<Rightarrow> string \<Rightarrow> string \<Rightarrow> string option" where
  "resolve_out_name bCompress cwd out_name =
     (if bCompress then
        (let nm = (if str_find out_name [CHR '':'', CHR 0x5C] \<noteq> Some 1
                      \<and> str_find out_name '':/'' \<noteq> Some 1
                   then cwd @ [CHR 0x5C] @ out_name else out_name)
         in case ends_with_postfix nm of
              None \<Rightarrow> None
            | Some b \<Rightarrow> Some (if \<not> b then nm @ postfix else nm))
      else
        (case ends_with_postfix out_name of
           None \<Rightarrow> None
         | Some b \<Rightarrow>
             Some (if b then take (length out_name - length postfix) out_name else out_name)))"

text \<open>
  What the program finds outside itself: the files that can be opened, and the content of
  the two uninitialised arrays of the pump that runs.
\<close>

record environment =
  open_in :: "string \<Rightarrow> ifstream option"
  open_out :: "string \<Rightarrow> ofstream option"
  in_buffer0 :: "byte list"
  out_buffer0 :: "byte list"

text \<open>
  \<^verbatim>\<open>create_init_fl2_streams\<close>.  \<open>Inl\<close>: the process has exited (through \<^verbatim>\<open>exit_fail\<close> or
  \<^verbatim>\<open>exit(1)\<close>), with the actions up to the exit.  It runs before \<^verbatim>\<open>open_files\<close>: neither
  stream holds a file.
\<close>

definition create_init_fl2_streams ::
  "('c, 'd) FL2_api \<Rightarrow> int \<Rightarrow> int \<Rightarrow> event list \<Rightarrow> event list + ('c \<times> 'd \<times> event list)" where
  "create_init_fl2_streams api thread_count preset lg =
     (case FL2_createCStreamMt api thread_count of
        None \<Rightarrow>
          Inl (exit_fail ''Cannot allocate compression context.\<newline>'' False False
                 (lg @ [Ev_createCStreamMt thread_count]))
      | Some c0 \<Rightarrow>
          (case FL2_createDStreamMt api thread_count of
             None \<Rightarrow>
               Inl (exit_fail ''Cannot allocate decompression context.\<newline>'' False False
                      (lg @ [Ev_createCStreamMt thread_count, Ev_createDStreamMt thread_count]))
           | Some d0 \<Rightarrow>
               (case FL2_initCStream api c0 preset of
                  (r1, c1) \<Rightarrow>
                    let lg1 = lg @ [Ev_createCStreamMt thread_count,
                                    Ev_createDStreamMt thread_count, Ev_initCStream preset r1];
                        (r2, d1, lg2) =
                          (if r1 = 0
                           then (case FL2_initDStream api d0 of
                                   (r, d) \<Rightarrow> (r, d, lg1 @ [Ev_initDStream r]))
                           else (r1, d0, lg1))
                    in if FL2_isError api r2
                       then Inl (exit_1 False False
                                   (lg2 @ [Ev_getErrorName r2,
                                           Ev_stderr (''Error: '' @ FL2_getErrorName api r2
                                                      @ ''\<newline>'')]))
                       else Inr (c1, d1, lg2))))"

text \<open>
  \<^verbatim>\<open>open_files\<close>.  When the input cannot be opened no stream holds a file; when the
  output cannot be opened the input stream does.
\<close>

definition open_files ::
  "environment \<Rightarrow> string \<Rightarrow> string \<Rightarrow> event list
     \<Rightarrow> event list + (ifstream \<times> ofstream \<times> event list)" where
  "open_files env name out_name lg =
     (case open_in env name of
        None \<Rightarrow>
          Inl (exit_fail ''Cannot open input file.\<newline>'' False False
                 (lg @ [Ev_open_in name False]))
      | Some fi \<Rightarrow>
          (case open_out env out_name of
             None \<Rightarrow>
               Inl (exit_fail ''Cannot open output file.\<newline>'' True False
                      (lg @ [Ev_open_in name True, Ev_open_out out_name False]))
           | Some fo \<Rightarrow>
               Inr (fi, fo, lg @ [Ev_open_in name True, Ev_open_out out_name True])))"

text \<open>The end of a run: the exit status, the actions, and the output file if it was opened.\<close>

record run_end =
  exit_code :: int
  events :: "event list"
  sink :: "ofstream option"

text \<open>Lines 282 to 288 of \<^verbatim>\<open>main\<close>.\<close>

definition cleanup :: "int \<Rightarrow> ofstream \<Rightarrow> event list \<Rightarrow> run_end" where
  "cleanup ret fo lg =
     \<lparr>exit_code = ret,
      events = lg @ [Ev_fout_flush, Ev_fout_close, Ev_fin_close, Ev_freeCStream, Ev_freeDStream],
      sink = Some fo\<rparr>"

text \<open>
  Lines 262 to 288 of \<^verbatim>\<open>main\<close>, with the values the command line gave: the thread count,
  the mode, the preset, the input name and the resolved output name.  \<open>None\<close>: the run does
  not end.
\<close>

definition main_run ::
  "('c, 'd) FL2_api \<Rightarrow> environment \<Rightarrow> int \<Rightarrow> bool \<Rightarrow> int \<Rightarrow> string \<Rightarrow> string \<Rightarrow> run_end option" where
  "main_run api env thread_count bCompress preset name out_name =
     (case create_init_fl2_streams api thread_count preset [] of
        Inl lg \<Rightarrow> Some \<lparr>exit_code = 1, events = lg, sink = None\<rparr>
      | Inr (fcs, fds, lg0) \<Rightarrow>
          (case open_files env name out_name lg0 of
             Inl lg \<Rightarrow> Some \<lparr>exit_code = 1, events = lg, sink = None\<rparr>
           | Inr (fi, fo, lg1) \<Rightarrow>
               if bCompress then
                 (case compress_file api (in_buffer0 env) (out_buffer0 env) fcs fi fo
                         (lg1 @ [Ev_stdout (''Compressing \<newline>  '' @ name @ ''\<newline>    to\<newline>  ''
                                      @ out_name @ ''\<newline>'')]) of
                    None \<Rightarrow> None
                  | Some (ret, t) \<Rightarrow>
                      Some (cleanup ret (fout t)
                              (if ret = 0 then log t @ [Ev_stdout ''Compression SUCCESS.\<newline>'']
                               else log t)))
               else
                 (case decompress_file api (in_buffer0 env) (out_buffer0 env) fds fi fo
                         (lg1 @ [Ev_stdout (''Decompressing to '' @ out_name @ ''\<newline>'')]) of
                    None \<Rightarrow> None
                  | Some (ret, t) \<Rightarrow>
                      Some (cleanup ret (fout t)
                              (if ret = 0 then log t @ [Ev_stdout ''Decompression SUCCESS.\<newline>'']
                               else log t)))))"

section \<open>What the pumps expect of the library\<close>

text \<open>
  The library header documents that a streaming call only moves the two positions
  forward, never beyond the size of the buffer, and leaves the sizes alone; the input
  array is \<^verbatim>\<open>const\<close>.  This is asked of calls on buffers that describe memory that
  exists (a position within the size, a size within the array).  A call that returns an
  error is not constrained.
\<close>

definition feed_respects ::
  "(size_t \<Rightarrow> bool) \<Rightarrow>
   ('e \<Rightarrow> FL2_outBuffer \<Rightarrow> FL2_inBuffer \<Rightarrow> size_t \<times> 'e \<times> FL2_outBuffer \<times> FL2_inBuffer) \<Rightarrow> bool" where
  "feed_respects is_err f \<longleftrightarrow>
     (\<forall>e ob ib r e' ob' ib'.
        f e ob ib = (r, e', ob', ib') \<and> \<not> is_err r
          \<and> pos_in ib \<le> size_in ib \<and> size_in ib \<le> length (src ib)
          \<and> pos_out ob \<le> size_out ob \<and> size_out ob \<le> length (dst ob) \<longrightarrow>
        size_in ib' = size_in ib \<and> pos_in ib \<le> pos_in ib' \<and> pos_in ib' \<le> size_in ib
          \<and> src ib' = src ib
          \<and> size_out ob' = size_out ob \<and> pos_out ob \<le> pos_out ob' \<and> pos_out ob' \<le> size_out ob
          \<and> length (dst ob') = length (dst ob))"

definition finish_respects ::
  "(size_t \<Rightarrow> bool) \<Rightarrow> ('e \<Rightarrow> FL2_outBuffer \<Rightarrow> size_t \<times> 'e \<times> FL2_outBuffer) \<Rightarrow> bool" where
  "finish_respects is_err f \<longleftrightarrow>
     (\<forall>e ob r e' ob'.
        f e ob = (r, e', ob') \<and> \<not> is_err r
          \<and> pos_out ob \<le> size_out ob \<and> size_out ob \<le> length (dst ob) \<longrightarrow>
        size_out ob' = size_out ob \<and> pos_out ob \<le> pos_out ob' \<and> pos_out ob' \<le> size_out ob
          \<and> length (dst ob') = length (dst ob))"

definition api_respects :: "('c, 'd) FL2_api \<Rightarrow> bool" where
  "api_respects api \<longleftrightarrow>
     feed_respects (FL2_isError api) (FL2_compressStream api)
     \<and> finish_respects (FL2_isError api) (FL2_endStream api)
     \<and> feed_respects (FL2_isError api) (FL2_decompressStream api)"

text \<open>
  The buffer invariant of the specification, for capacities \<open>icap\<close> and \<open>ocap\<close>:
  \<open>0 \<le> position \<le> size \<le> capacity\<close> for both buffers.  The arrays keep their lengths.
\<close>

definition buf_inv :: "nat \<Rightarrow> nat \<Rightarrow> 'e pump \<Rightarrow> bool" where
  "buf_inv icap ocap s \<longleftrightarrow>
     0 \<le> pos_in (in_buf s) \<and> pos_in (in_buf s) \<le> size_in (in_buf s) \<and> size_in (in_buf s) \<le> icap
     \<and> 0 \<le> pos_out (out_buf s) \<and> pos_out (out_buf s) \<le> size_out (out_buf s)
     \<and> size_out (out_buf s) \<le> ocap"

section \<open>A small library for concrete runs\<close>

text \<open>
  A store codec: the compressor copies as many bytes as fit from the unread part of the
  input buffer to the free part of the output buffer; finishing adds nothing; the
  decompressor copies in the same way and always answers 1 (it cannot know where the
  stream ends).  Status values from 1000 on are errors.  The engine states carry no
  information: a unit for the compressor, a byte list (unused here) for the decompressor.
\<close>

definition store_feed ::
  "size_t \<Rightarrow> 'e \<Rightarrow> FL2_outBuffer \<Rightarrow> FL2_inBuffer \<Rightarrow> size_t \<times> 'e \<times> FL2_outBuffer \<times> FL2_inBuffer" where
  "store_feed status e ob ib =
     (let n = min (size_in ib - pos_in ib) (size_out ob - pos_out ob);
          bs = take n (drop (pos_in ib) (src ib))
      in (status, e,
          ob\<lparr>dst := take (pos_out ob) (dst ob) @ bs @ drop (pos_out ob + n) (dst ob),
             pos_out := pos_out ob + n\<rparr>,
          ib\<lparr>pos_in := pos_in ib + n\<rparr>))"

definition store_api :: "(unit, byte list) FL2_api" where
  "store_api =
     \<lparr>FL2_createCStreamMt = (\<lambda>_. Some ()),
      FL2_createDStreamMt = (\<lambda>_. Some []),
      FL2_initCStream = (\<lambda>c _. (0, c)),
      FL2_initDStream = (\<lambda>d. (0, d)),
      FL2_compressStream = store_feed 0,
      FL2_endStream = (\<lambda>c ob. (0, c, ob)),
      FL2_decompressStream = store_feed 1,
      FL2_isError = (\<lambda>r. 1000 \<le> r),
      FL2_getErrorName = (\<lambda>r. if 1000 \<le> r then ''Generic error'' else ''No error detected'')\<rparr>"

text \<open>
  A compressor that copies like the store codec and owes a trailer.  Its state is the
  number of trailer bytes still to come (two when the stream is created); a finish call
  emits one of them, the byte 170, and answers how many remain.
\<close>

definition trailer_api :: "(nat, byte list) FL2_api" where
  "trailer_api =
     \<lparr>FL2_createCStreamMt = (\<lambda>_. Some 2),
      FL2_createDStreamMt = (\<lambda>_. Some []),
      FL2_initCStream = (\<lambda>c _. (0, c)),
      FL2_initDStream = (\<lambda>d. (0, d)),
      FL2_compressStream = store_feed 0,
      FL2_endStream =
        (\<lambda>c ob.
           if c = 0 \<or> size_out ob \<le> pos_out ob then (c, c, ob)
           else (c - 1, c - 1,
                 ob\<lparr>dst := take (pos_out ob) (dst ob) @ [170] @ drop (pos_out ob + 1) (dst ob),
                    pos_out := pos_out ob + 1\<rparr>)),
      FL2_decompressStream = store_feed 1,
      FL2_isError = (\<lambda>r. 1000 \<le> r),
      FL2_getErrorName = (\<lambda>r. if 1000 \<le> r then ''Generic error'' else ''No error detected'')\<rparr>"

section \<open>Notions used to state the properties\<close>

text \<open>
  The states at the iteration boundaries of a loop, for its first \<open>n\<close> passes: the state
  the loop is entered with, and the state after every pass that reached the test.
\<close>

fun loop_boundaries :: "nat \<Rightarrow> ('s \<Rightarrow> 's + 's) \<Rightarrow> ('s \<Rightarrow> bool) \<Rightarrow> 's \<Rightarrow> 's list" where
  "loop_boundaries 0 body cond s = [s]"
| "loop_boundaries (Suc n) body cond s =
     s # (case body s of
            Inl e \<Rightarrow> []
          | Inr s' \<Rightarrow> if cond s' then loop_boundaries n body cond s' else [s'])"

text \<open>
  What the three loop bodies share after the engine has returned status \<open>r\<close>, engine
  state \<open>e\<close> and the two buffer structures: the assignments, the error test, the drain.
\<close>

definition after_call ::
  "(size_t \<Rightarrow> bool) \<Rightarrow> (size_t \<Rightarrow> event) \<Rightarrow> 'e pump \<Rightarrow> size_t \<Rightarrow> 'e \<Rightarrow> FL2_outBuffer
     \<Rightarrow> FL2_inBuffer \<Rightarrow> 'e pump + 'e pump" where
  "after_call is_err ev s r e ob ib =
     (let s2 = s\<lparr>res := r, ctx := e, out_buf := ob, in_buf := ib, log := log s @ [ev r]\<rparr>
      in if is_err r then Inl s2 else Inr (drain s2))"

text \<open>\<^verbatim>\<open>FL2_endStream\<close> seen as a call that leaves the input buffer alone.\<close>

definition finish_as_feed ::
  "('c, 'd) FL2_api \<Rightarrow> 'c \<Rightarrow> FL2_outBuffer \<Rightarrow> FL2_inBuffer
     \<Rightarrow> size_t \<times> 'c \<times> FL2_outBuffer \<times> FL2_inBuffer" where
  "finish_as_feed api e ob ib = (case FL2_endStream api e ob of (r, e', ob') \<Rightarrow> (r, e', ob', ib))"

text \<open>A loop body in general: a preparation of the state, the call, and what follows it.\<close>

definition pump_step ::
  "(size_t \<Rightarrow> bool) \<Rightarrow> (size_t \<Rightarrow> event)
     \<Rightarrow> ('e \<Rightarrow> FL2_outBuffer \<Rightarrow> FL2_inBuffer \<Rightarrow> size_t \<times> 'e \<times> FL2_outBuffer \<times> FL2_inBuffer)
     \<Rightarrow> ('e pump \<Rightarrow> 'e pump) \<Rightarrow> 'e pump \<Rightarrow> 'e pump + 'e pump" where
  "pump_step is_err ev f pre s =
     (let s1 = pre s in
      case f (ctx s1) (out_buf s1) (in_buf s1) of
        (r, e, ob, ib) \<Rightarrow> after_call is_err ev s1 r e ob ib)"

text \<open>The iteration boundaries of the three loops of the program.\<close>

definition compress_boundaries :: "nat \<Rightarrow> ('c, 'd) FL2_api \<Rightarrow> 'c pump \<Rightarrow> 'c pump list" where
  "compress_boundaries n api =
     loop_boundaries n (compress_body api) (\<lambda>s. size_in (in_buf s) \<noteq> 0)"

definition finish_boundaries :: "nat \<Rightarrow> ('c, 'd) FL2_api \<Rightarrow> 'c pump \<Rightarrow> 'c pump list" where
  "finish_boundaries n api = loop_boundaries n (finish_body api) (\<lambda>s. res s \<noteq> 0)"

definition decompress_boundaries :: "nat \<Rightarrow> ('c, 'd) FL2_api \<Rightarrow> 'd pump \<Rightarrow> 'd pump list" where
  "decompress_boundaries n api =
     loop_boundaries n (decompress_body api) (\<lambda>s. res s \<noteq> 0 \<and> size_in (in_buf s) \<noteq> 0)"

text \<open>
  The buffer invariant together with what the drain leaves behind: the output buffer is
  empty, its size is its capacity, the output array has that length, and the input size
  lies within the input array.
\<close>

definition buffers_ok :: "nat \<Rightarrow> nat \<Rightarrow> 'e pump \<Rightarrow> bool" where
  "buffers_ok icap ocap s \<longleftrightarrow>
     buf_inv icap ocap s \<and> pos_out (out_buf s) = 0 \<and> size_out (out_buf s) = ocap
     \<and> length (dst (out_buf s)) = ocap \<and> size_in (in_buf s) \<le> length (src (in_buf s))"

text \<open>
  Forward progress of a streaming call, as the specification asks it of the library: a
  call that is given unread input and room for output, and returns no error, consumes or
  produces at least one byte.
\<close>

definition feed_progress ::
  "(size_t \<Rightarrow> bool) \<Rightarrow>
   ('e \<Rightarrow> FL2_outBuffer \<Rightarrow> FL2_inBuffer \<Rightarrow> size_t \<times> 'e \<times> FL2_outBuffer \<times> FL2_inBuffer) \<Rightarrow> bool" where
  "feed_progress is_err f \<longleftrightarrow>
     (\<forall>e ob ib r e' ob' ib'.
        f e ob ib = (r, e', ob', ib') \<and> \<not> is_err r
          \<and> pos_in ib < size_in ib \<and> size_in ib \<le> length (src ib)
          \<and> pos_out ob < size_out ob \<and> size_out ob \<le> length (dst ob) \<longrightarrow>
        pos_in ib < pos_in ib' \<or> pos_out ob < pos_out ob')"

text \<open>
  Bounded output: the engine state carries a budget \<open>owed\<close> of bytes it may still emit
  without reading; a call that consumes nothing pays what it produces from that budget.
\<close>

definition feed_bounded ::
  "(size_t \<Rightarrow> bool) \<Rightarrow>
   ('e \<Rightarrow> FL2_outBuffer \<Rightarrow> FL2_inBuffer \<Rightarrow> size_t \<times> 'e \<times> FL2_outBuffer \<times> FL2_inBuffer) \<Rightarrow>
   ('e \<Rightarrow> nat) \<Rightarrow> bool" where
  "feed_bounded is_err f owed \<longleftrightarrow>
     (\<forall>e ob ib r e' ob' ib'.
        f e ob ib = (r, e', ob', ib') \<and> \<not> is_err r
          \<and> pos_in ib \<le> size_in ib \<and> size_in ib \<le> length (src ib)
          \<and> pos_out ob \<le> size_out ob \<and> size_out ob \<le> length (dst ob)
          \<and> pos_in ib' = pos_in ib \<longrightarrow>
        owed e' + (pos_out ob' - pos_out ob) \<le> owed e)"

text \<open>
  The input side of a pump that started on a source of \<open>n\<close> bytes: every byte is either
  counted in \<^verbatim>\<open>in_size\<close> or still in the file, and a buffer of size 0 means that a read
  found the file at its end.
\<close>

definition input_ok :: "nat \<Rightarrow> 'e pump \<Rightarrow> bool" where
  "input_ok n s \<longleftrightarrow>
     in_size s + length (unread (fin s)) = n
     \<and> (size_in (in_buf s) = 0 \<longrightarrow> unread (fin s) = [])"

text \<open>
  A compressor that emits one byte on every call that has room for it and never reads.
\<close>

definition babble_api :: "(unit, byte list) FL2_api" where
  "babble_api =
     store_api\<lparr>FL2_compressStream :=
       (\<lambda>c ob ib.
          (0, c,
           if pos_out ob < size_out ob
           then ob\<lparr>dst := (dst ob)[pos_out ob := 0], pos_out := pos_out ob + 1\<rparr> else ob,
           ib))\<rparr>"

text \<open>The input a pump has not yet handed to the engine: in the file or unread in the buffer.\<close>

definition input_left :: "'e pump \<Rightarrow> nat" where
  "input_left s = length (unread (fin s)) + (size_in (in_buf s) - pos_in (in_buf s))"



text \<open>What the label \<^verbatim>\<open>error_out\<close> does for status \<open>r\<close>.\<close>

definition error_events :: "('c, 'd) FL2_api \<Rightarrow> size_t \<Rightarrow> event list" where
  "error_events api r =
     [Ev_getErrorName r, Ev_stderr (''Error: '' @ FL2_getErrorName api r @ ''\<newline>'')]"


text \<open>The report a pump prints when it returns 0.\<close>

definition counts_event :: "bool \<Rightarrow> 'e pump \<Rightarrow> event" where
  "counts_event bCompress t =
     (if bCompress
      then Ev_stdout_counts ''Compressed: %lld -> %lld\<newline>'' (in_size t) (out_size t)
      else Ev_stdout_counts (CHR 0x09 # ''Decompressed: %lld -> %lld\<newline>'')
             (in_size t) (out_size t))"




text \<open>
  Environments for concrete runs: every file opens, no input file does, or no output file
  does.
\<close>

definition env_with :: "byte list \<Rightarrow> ofstream \<Rightarrow> nat \<Rightarrow> nat \<Rightarrow> environment" where
  "env_with content fo icap ocap =
     \<lparr>open_in = (\<lambda>_. Some \<lparr>unread = content\<rparr>), open_out = (\<lambda>_. Some fo),
      in_buffer0 = replicate icap 0, out_buffer0 = replicate ocap 0\<rparr>"

definition env_no_input :: environment where
  "env_no_input =
     \<lparr>open_in = (\<lambda>_. None), open_out = (\<lambda>_. Some \<lparr>written = [], good = True, room = None\<rparr>),
      in_buffer0 = replicate 8192 0, out_buffer0 = replicate 4096 0\<rparr>"

definition env_no_output :: environment where
  "env_no_output =
     \<lparr>open_in = (\<lambda>_. Some \<lparr>unread = [1, 2, 3]\<rparr>), open_out = (\<lambda>_. None),
      in_buffer0 = replicate 8192 0, out_buffer0 = replicate 4096 0\<rparr>"

text \<open>Two pump states that differ at most in the output stream.\<close>

definition same_but_fout :: "'e pump \<Rightarrow> 'e pump \<Rightarrow> bool" where
  "same_but_fout s s' \<longleftrightarrow> s' = s\<lparr>fout := fout s'\<rparr>"

text \<open>What a pump reports when it returns: its result, its two counters, its actions.\<close>

definition report :: "(int \<times> 'e pump) option \<Rightarrow> (int \<times> size_t \<times> size_t \<times> event list) option" where
  "report = map_option (\<lambda>(rc, t). (rc, in_size t, out_size t, log t))"



section \<open>A streaming codec\<close>

text \<open>
  The unread part of an input buffer, the bytes a call consumed from it, and the bytes a
  call produced into an output buffer.
\<close>

definition window :: "FL2_inBuffer \<Rightarrow> byte list" where
  "window ib = take (size_in ib - pos_in ib) (drop (pos_in ib) (src ib))"

definition consumed :: "FL2_inBuffer \<Rightarrow> FL2_inBuffer \<Rightarrow> byte list" where
  "consumed ib ib' = take (pos_in ib' - pos_in ib) (drop (pos_in ib) (src ib))"

definition produced :: "FL2_outBuffer \<Rightarrow> FL2_outBuffer \<Rightarrow> byte list" where
  "produced ob ob' = take (pos_out ob' - pos_out ob) (drop (pos_out ob) (dst ob'))"

definition well_formed :: "FL2_inBuffer \<Rightarrow> FL2_outBuffer \<Rightarrow> bool" where
  "well_formed ib ob \<longleftrightarrow>
     pos_in ib \<le> size_in ib \<and> size_in ib \<le> length (src ib)
     \<and> pos_out ob \<le> size_out ob \<and> size_out ob \<le> length (dst ob)"

text \<open>
  A contract for one streaming call \<open>f\<close>.  \<open>St e i o\<close> says that the engine state \<open>e\<close> has
  consumed the bytes \<open>i\<close> and emitted the bytes \<open>o\<close> so far.  On an input that \<open>P\<close> admits
  (what was consumed, followed by the unread bytes offered), a call returns no error,
  the state it leaves has consumed and emitted what the positions say, and \<open>Q\<close> holds of
  the status, the bytes offered, the bytes consumed before and the bytes emitted after.
\<close>

definition step_contract ::
  "(size_t \<Rightarrow> bool) \<Rightarrow>
   ('e \<Rightarrow> FL2_outBuffer \<Rightarrow> FL2_inBuffer \<Rightarrow> size_t \<times> 'e \<times> FL2_outBuffer \<times> FL2_inBuffer) \<Rightarrow>
   ('e \<Rightarrow> byte list \<Rightarrow> byte list \<Rightarrow> bool) \<Rightarrow> (byte list \<Rightarrow> bool) \<Rightarrow>
   (size_t \<Rightarrow> byte list \<Rightarrow> byte list \<Rightarrow> byte list \<Rightarrow> bool) \<Rightarrow> bool" where
  "step_contract is_err f St P Q \<longleftrightarrow>
     (\<forall>e i o' ob ib r e' ob' ib'.
        St e i o' \<and> well_formed ib ob \<and> P (i @ window ib) \<and> f e ob ib = (r, e', ob', ib') \<longrightarrow>
        \<not> is_err r \<and> St e' (i @ consumed ib ib') (o' @ produced ob ob')
        \<and> Q r (window ib) i (o' @ produced ob ob'))"

text \<open>
  A compressor for the container relation \<open>V\<close> (\<open>V s z\<close>: \<open>z\<close> is a complete container of
  \<open>s\<close>): feeding and finishing keep track of the bytes, and when finishing returns zero the
  bytes emitted are a container of the bytes consumed.
\<close>

definition compressor_ok ::
  "('c, 'd) FL2_api \<Rightarrow> (byte list \<Rightarrow> byte list \<Rightarrow> bool) \<Rightarrow>
   ('c \<Rightarrow> byte list \<Rightarrow> byte list \<Rightarrow> bool) \<Rightarrow> bool" where
  "compressor_ok api V Cst \<longleftrightarrow>
     step_contract (FL2_isError api) (FL2_compressStream api) Cst (\<lambda>_. True) (\<lambda>_ _ _ _. True)
     \<and> step_contract (FL2_isError api) (finish_as_feed api) Cst (\<lambda>_. True)
          (\<lambda>r _ i o'. r = 0 \<longrightarrow> V i o')"

text \<open>
  A decompressor for \<open>V\<close>: on a prefix of a container of \<open>s\<close> it returns no error and
  keeps track of the bytes; and it has emitted exactly \<open>s\<close> when it returns zero, and also
  when it returns from a call that offered no bytes after the whole container was
  consumed.
\<close>

definition decompressor_ok ::
  "('c, 'd) FL2_api \<Rightarrow> (byte list \<Rightarrow> byte list \<Rightarrow> bool) \<Rightarrow>
   ('d \<Rightarrow> byte list \<Rightarrow> byte list \<Rightarrow> bool) \<Rightarrow> bool" where
  "decompressor_ok api V Dst \<longleftrightarrow>
     (\<forall>s z. V s z \<longrightarrow>
        step_contract (FL2_isError api) (FL2_decompressStream api) Dst (\<lambda>x. prefix x z)
          (\<lambda>r w i o'. r = 0 \<or> (w = [] \<and> i = z) \<longrightarrow> o' = s))"

text \<open>Finishing ends: a call that returns a status other than zero shrinks the budget.\<close>

definition finish_bounded ::
  "(size_t \<Rightarrow> bool) \<Rightarrow> ('e \<Rightarrow> FL2_outBuffer \<Rightarrow> size_t \<times> 'e \<times> FL2_outBuffer) \<Rightarrow> ('e \<Rightarrow> nat) \<Rightarrow> bool" where
  "finish_bounded is_err f owed \<longleftrightarrow>
     (\<forall>e ob r e' ob'.
        f e ob = (r, e', ob') \<and> \<not> is_err r \<and> r \<noteq> 0
          \<and> pos_out ob \<le> size_out ob \<and> size_out ob \<le> length (dst ob) \<longrightarrow>
        owed e' < owed e)"

text \<open>
  The state of a pump whose engine obeys a contract with bookkeeping \<open>St\<close>, on a source
  \<open>a\<close> and a good, unlimited output stream: the engine has consumed some \<open>i\<close> and emitted
  what the output holds, and \<open>i\<close>, the unread bytes of the buffer and the unread bytes of
  the file make up the source.
\<close>

definition tracks :: "('e \<Rightarrow> byte list \<Rightarrow> byte list \<Rightarrow> bool) \<Rightarrow> byte list \<Rightarrow> 'e pump \<Rightarrow> bool" where
  "tracks St a s \<longleftrightarrow>
     good (fout s) \<and> room (fout s) = None
     \<and> (\<exists>i. St (ctx s) i (written (fout s)) \<and> i @ window (in_buf s) @ unread (fin s) = a)"

text \<open>
  A decompressor that takes all the input it is offered into a queue and emits at most
  one byte of the queue per call; it always answers 1.
\<close>

definition lazy_feed ::
  "byte list \<Rightarrow> FL2_outBuffer \<Rightarrow> FL2_inBuffer \<Rightarrow> size_t \<times> byte list \<times> FL2_outBuffer \<times> FL2_inBuffer" where
  "lazy_feed d ob ib =
     (let q = d @ window ib; ib' = ib\<lparr>pos_in := max (pos_in ib) (size_in ib)\<rparr>
      in case q of
           [] \<Rightarrow> (1, q, ob, ib')
         | b # q' \<Rightarrow>
             if pos_out ob < size_out ob
             then (1, q',
                   ob\<lparr>dst := take (pos_out ob) (dst ob) @ [b] @ drop (pos_out ob + 1) (dst ob),
                      pos_out := pos_out ob + 1\<rparr>,
                   ib')
             else (1, q, ob, ib'))"

definition lazy_api :: "(unit, byte list) FL2_api" where
  "lazy_api = store_api\<lparr>FL2_decompressStream := lazy_feed\<rparr>"

section \<open>Rules for the loops\<close>

text \<open>
  An invariant of the body holds when the loop ends, where the test fails; a jump out of
  the loop comes from a state that satisfies the invariant.
\<close>

lemma do_while_rule:
  assumes run: "do_while body cond s = Some r"
    and init: "I s"
    and step: "\<And>u u'. I u \<Longrightarrow> body u = Inr u' \<Longrightarrow> I u'"
  shows "case r of Inr t \<Rightarrow> I t \<and> \<not> cond t | Inl e \<Rightarrow> (\<exists>u. I u \<and> body u = Inl e)"
proof -
  let ?Q = "\<lambda>b r. case r of Inr t \<Rightarrow> I t \<and> \<not> cond t | Inl e \<Rightarrow> (\<exists>u. I u \<and> b u = Inl e)"
  let ?P = "\<lambda>b c s r. b = body \<longrightarrow> c = cond \<longrightarrow> I s \<longrightarrow> ?Q b r"
  have "?P body cond s r"
  proof (rule do_while.raw_induct[where P = ?P, OF _ run])
    fix f b c s r
    assume ih: "\<And>b c s r. f b c s = Some r \<Longrightarrow> ?P b c s r"
      and eq: "(case b s of Inl e \<Rightarrow> Some (Inl e)
                | Inr s' \<Rightarrow> if c s' then f b c s' else Some (Inr s')) = Some r"
    show "?P b c s r"
    proof (intro impI)
      assume b: "b = body" and c: "c = cond" and i: "I s"
      show "?Q b r"
      proof (cases "b s")
        case (Inl e)
        with eq have "r = Inl e" by simp
        with Inl i show ?thesis by auto
      next
        case (Inr s')
        with i b have i': "I s'" using step by blast
        show ?thesis
        proof (cases "c s'")
          case True
          with Inr eq have "f b c s' = Some r" by simp
          from ih[OF this] b c i' show ?thesis by simp
        next
          case False
          with Inr eq have "r = Inr s'" by simp
          with False i' c show ?thesis by simp
        qed
      qed
    qed
  qed
  with init show ?thesis by simp
qed

lemma do_while_Inr:
  assumes "do_while body cond s = Some (Inr t)" and "I s"
    and "\<And>u u'. I u \<Longrightarrow> body u = Inr u' \<Longrightarrow> I u'"
  shows "I t \<and> \<not> cond t"
  using do_while_rule[where I = I, OF assms(1,2)] assms(3) by simp

lemma do_while_Inl:
  assumes "do_while body cond s = Some (Inl e)" and "I s"
    and "\<And>u u'. I u \<Longrightarrow> body u = Inr u' \<Longrightarrow> I u'"
  shows "\<exists>u. I u \<and> body u = Inl e"
  using do_while_rule[where I = I, OF assms(1,2)] assms(3) by simp

text \<open>A loop whose continuing passes descend in a well-founded relation ends.\<close>

lemma do_while_terminates:
  assumes init: "I s"
    and step: "\<And>u u'. I u \<Longrightarrow> body u = Inr u' \<Longrightarrow> cond u' \<Longrightarrow> I u' \<and> (u', u) \<in> R"
    and wf: "wf R"
  shows "\<exists>r. do_while body cond s = Some r"
  using wf init
proof (induction s rule: wf_induct_rule)
  case (less s)
  show ?case
  proof (cases "body s")
    case (Inl e)
    then show ?thesis by (subst do_while.simps) simp
  next
    case (Inr s')
    show ?thesis
    proof (cases "cond s'")
      case True
      from step[OF less.prems Inr True] have "I s'" "(s', s) \<in> R" by auto
      from less.IH[OF this(2) this(1)] obtain r where "do_while body cond s' = Some r" ..
      with Inr True show ?thesis by (subst do_while.simps) simp
    next
      case False
      with Inr show ?thesis by (subst do_while.simps) simp
    qed
  qed
qed

text \<open>A loop that always reaches its test and passes it does not end.\<close>

lemma do_while_diverges:
  assumes init: "I s"
    and step: "\<And>u. I u \<Longrightarrow> \<exists>u'. body u = Inr u' \<and> cond u' \<and> I u'"
  shows "do_while body cond s = None"
proof (rule ccontr)
  assume "do_while body cond s \<noteq> None"
  then obtain r where run: "do_while body cond s = Some r" by auto
  let ?P = "\<lambda>b c s (r :: 'a + 'a). b = body \<longrightarrow> c = cond \<longrightarrow> \<not> I s"
  have "?P body cond s r"
  proof (rule do_while.raw_induct[where P = ?P, OF _ run])
    fix f b c s r
    assume ih: "\<And>b c s r. f b c s = Some r \<Longrightarrow> ?P b c s r"
      and eq: "(case b s of Inl e \<Rightarrow> Some (Inl e)
                | Inr s' \<Rightarrow> if c s' then f b c s' else Some (Inr s')) = Some (r :: 'a + 'a)"
    show "?P b c s r"
    proof (intro impI notI)
      assume b: "b = body" and c: "c = cond" and i: "I s"
      from step[OF i] obtain s' where s': "body s = Inr s'" "cond s'" "I s'" by blast
      with eq b c have "f b c s' = Some r" by simp
      from ih[OF this] b c s'(3) show False by simp
    qed
  qed
  with init show False by simp
qed

section \<open>The output name\<close>

lemma std_equal_Some:
  "std_equal xs ys = Some b \<Longrightarrow> b = prefix xs ys"
  by (induction xs ys rule: std_equal.induct) (auto split: if_splits)

lemma std_equal_None:
  "std_equal xs ys = None \<Longrightarrow> set ys \<subseteq> set xs"
  by (induction xs ys rule: std_equal.induct) (auto split: if_splits)

lemma std_equal_prefix:
  "prefix xs ys \<Longrightarrow> std_equal xs ys = Some True"
  by (induction xs ys rule: std_equal.induct) auto

lemma ends_with_postfix_Some:
  assumes "ends_with_postfix nm = Some b"
  shows "b = suffix postfix nm"
  using std_equal_Some[of "rev postfix" "rev nm" b] assms
  by (simp add: ends_with_postfix_def suffix_to_prefix)

lemma ends_with_postfix_suffix:
  assumes "suffix postfix nm"
  shows "ends_with_postfix nm = Some True"
  using assms by (simp add: ends_with_postfix_def std_equal_prefix suffix_to_prefix)

lemma ends_with_postfix_defined:
  assumes "c \<in> set nm" "c \<notin> set postfix"
  shows "ends_with_postfix nm \<noteq> None"
proof
  assume "ends_with_postfix nm = None"
  then have "set (rev nm) \<subseteq> set (rev postfix)"
    unfolding ends_with_postfix_def by (rule std_equal_None)
  with assms show False by auto
qed

lemma str_find_Some_set:
  "str_find s pat = Some k \<Longrightarrow> set pat \<subseteq> set s"
proof (induction s arbitrary: k)
  case Nil
  then show ?case by (simp split: if_splits)
next
  case (Cons c cs)
  show ?case
  proof (cases "prefix pat (c # cs)")
    case True
    then show ?thesis by (rule set_mono_prefix)
  next
    case False
    with Cons.prems obtain k' where "str_find cs pat = Some k'" by auto
    from Cons.IH[OF this] show ?thesis by auto
  qed
qed

text \<open>The name compared in compression mode holds a backslash or a colon.\<close>

lemma compress_name_defined:
  "ends_with_postfix (if str_find nm [CHR '':'', CHR 0x5C] \<noteq> Some 1
                          \<and> str_find nm '':/'' \<noteq> Some 1
                       then cwd @ [CHR 0x5C] @ nm else nm) \<noteq> None"
proof (cases "str_find nm [CHR '':'', CHR 0x5C] \<noteq> Some 1 \<and> str_find nm '':/'' \<noteq> Some 1")
  case True
  have "ends_with_postfix (cwd @ [CHR 0x5C] @ nm) \<noteq> None"
    by (rule ends_with_postfix_defined[where c = "CHR 0x5C"]) (simp_all add: postfix_def)
  with True show ?thesis by simp
next
  case False
  then have "set [CHR '':'', CHR 0x5C] \<subseteq> set nm \<or> set '':/'' \<subseteq> set nm"
    using str_find_Some_set by blast
  then have "CHR '':'' \<in> set nm" by auto
  then have "ends_with_postfix nm \<noteq> None"
    by (rule ends_with_postfix_defined) (simp add: postfix_def)
  with False show ?thesis by auto
qed

text \<open>
  Claim C6, as the code has it.  In compression mode the program resolves an output name
  for every name it is given, and the resolved name ends with \<open>.lzma2\<close>.  In
  decompression mode a name that ends with \<open>.lzma2\<close> loses that postfix once: the
  resolved name is the rest, and it still ends with \<open>.lzma2\<close> exactly when the given name
  ended with \<open>.lzma2.lzma2\<close>.
\<close>

theorem suffix_invariant:
  "(\<exists>p. resolve_out_name True cwd nm = Some p \<and> suffix postfix p)
   \<and> (suffix postfix nm \<longrightarrow>
        (\<exists>q. nm = q @ postfix \<and> resolve_out_name False cwd nm = Some q
             \<and> (suffix postfix q \<longleftrightarrow> suffix (postfix @ postfix) nm)))"
proof (intro conjI impI)
  define nm' where "nm' = (if str_find nm [CHR '':'', CHR 0x5C] \<noteq> Some 1
                      \<and> str_find nm '':/'' \<noteq> Some 1
                   then cwd @ [CHR 0x5C] @ nm else nm)"
  from compress_name_defined[of nm cwd] obtain b where b: "ends_with_postfix nm' = Some b"
    unfolding nm'_def by blast
  then have r: "resolve_out_name True cwd nm = Some (if \<not> b then nm' @ postfix else nm')"
    by (simp add: resolve_out_name_def nm'_def Let_def)
  from ends_with_postfix_Some[OF b] have "suffix postfix (if \<not> b then nm' @ postfix else nm')"
    by (cases b) (auto simp: suffix_def)
  with r show "\<exists>p. resolve_out_name True cwd nm = Some p \<and> suffix postfix p" by blast
next
  assume s: "suffix postfix nm"
  then obtain q where q: "nm = q @ postfix" by (auto simp: suffix_def)
  from ends_with_postfix_suffix[OF s] q
  have "resolve_out_name False cwd nm = Some q"
    by (simp add: resolve_out_name_def)
  moreover have "suffix postfix q \<longleftrightarrow> suffix (postfix @ postfix) nm"
    using q by simp
  ultimately show "\<exists>q. nm = q @ postfix \<and> resolve_out_name False cwd nm = Some q
             \<and> (suffix postfix q \<longleftrightarrow> suffix (postfix @ postfix) nm)"
    using q by blast
qed

theorem suffix_invariant_witness:
  "resolve_out_name True ''/home'' ''a.txt'' = Some (''/home'' @ [CHR 0x5C] @ ''a.txt.lzma2'')
   \<and> suffix postfix (''/home'' @ [CHR 0x5C] @ ''a.txt.lzma2'')
   \<and> resolve_out_name True ''/home'' ([CHR ''c'', CHR '':'', CHR 0x5C, CHR ''2''])
       = Some ([CHR ''c'', CHR '':'', CHR 0x5C] @ ''2.lzma2'')
   \<and> suffix postfix ''a.lzma2''
   \<and> resolve_out_name False ''/home'' ''a.lzma2'' = Some ''a''
   \<and> \<not> suffix postfix ''a''"
  using suffix_invariant [where cwd = "''/home''" and nm = "''a.txt''"]
        suffix_invariant [where cwd = "''/home''" and nm = "''a.lzma2''"]
  by (simp add: resolve_out_name_def ends_with_postfix_def postfix_def suffix_def)

text \<open>
  Claim C6 as stated fails in decompression mode: \<open>a.lzma2.lzma2\<close> ends with the postfix,
  and so does the name resolved from it.
\<close>

theorem suffix_stripped_once_counterexample:
  "suffix postfix ''a.lzma2.lzma2''
   \<and> resolve_out_name False ''/home'' ''a.lzma2.lzma2'' = Some ''a.lzma2''
   \<and> suffix postfix ''a.lzma2''"
  by (simp add: resolve_out_name_def ends_with_postfix_def postfix_def suffix_def)

section \<open>Facts about the loop bodies\<close>

lemma compress_body_step:
  "compress_body api =
     pump_step (FL2_isError api) Ev_compressStream (FL2_compressStream api) (refill (8 * 1024))"
  by (rule ext) (simp add: compress_body_def pump_step_def after_call_def Let_def split: prod.splits)

lemma decompress_body_step:
  "decompress_body api =
     pump_step (FL2_isError api) Ev_decompressStream (FL2_decompressStream api) (refill (4 * 1024))"
  by (rule ext) (simp add: decompress_body_def pump_step_def after_call_def Let_def split: prod.splits)

lemma finish_body_step:
  "finish_body api = pump_step (FL2_isError api) Ev_endStream (finish_as_feed api) id"
  by (rule ext)
     (simp add: finish_body_def pump_step_def after_call_def finish_as_feed_def Let_def
           split: prod.splits)

lemma pump_stepE:
  assumes "pump_step is_err ev f pre s = x"
  obtains r e ob ib where "f (ctx (pre s)) (out_buf (pre s)) (in_buf (pre s)) = (r, e, ob, ib)"
    and "after_call is_err ev (pre s) r e ob ib = x"
proof -
  obtain r e ob ib where c: "f (ctx (pre s)) (out_buf (pre s)) (in_buf (pre s)) = (r, e, ob, ib)"
    by (metis prod_cases4)
  with assms have "after_call is_err ev (pre s) r e ob ib = x"
    by (simp add: pump_step_def Let_def)
  with c that show thesis by blast
qed

lemma after_call_Inr:
  assumes "after_call is_err ev s r e ob ib = Inr s'"
  shows "\<not> is_err r" "res s' = r" "ctx s' = e" "in_buf s' = ib"
    "out_buf s' = ob\<lparr>pos_out := 0\<rparr>" "fin s' = fin s"
    "fout s' = ofstream_write (fout s) (take (pos_out ob) (dst ob))"
    "in_size s' = in_size s" "out_size s' = out_size s + pos_out ob"
    "log s' = log s @ [ev r]"
  using assms by (auto simp: after_call_def drain_def ffwrite_def Let_def split: if_splits)

lemma after_call_Inl:
  assumes "after_call is_err ev s r e ob ib = Inl s'"
  shows "is_err r" "res s' = r" "fin s' = fin s" "fout s' = fout s"
    "in_size s' = in_size s" "out_size s' = out_size s" "log s' = log s @ [ev r]"
  using assms by (auto simp: after_call_def Let_def split: if_splits)

lemma refill_fields [simp]:
  "out_buf (refill cap s) = out_buf s" "res (refill cap s) = res s" "ctx (refill cap s) = ctx s"
  "fout (refill cap s) = fout s" "out_size (refill cap s) = out_size s" "log (refill cap s) = log s"
  by (simp_all add: refill_def ffread_def Let_def)

lemma refill_full:
  assumes "pos_in (in_buf s) = size_in (in_buf s)"
  shows "size_in (in_buf (refill cap s)) = min cap (length (unread (fin s)))"
    "size_in (in_buf (refill cap s)) \<le> length (src (in_buf (refill cap s)))"
    "pos_in (in_buf (refill cap s)) = 0"
    "take (min cap (length (unread (fin s)))) (src (in_buf (refill cap s))) = take cap (unread (fin s))"
    "unread (fin (refill cap s)) = drop cap (unread (fin s))"
    "in_size (refill cap s) = in_size s + min cap (length (unread (fin s)))"
  using assms by (simp_all add: refill_def ffread_def Let_def min_def)

lemma refill_same:
  "pos_in (in_buf s) \<noteq> size_in (in_buf s) \<Longrightarrow> refill cap s = s"
  by (simp add: refill_def)

lemma finish_as_feed_respects:
  assumes "finish_respects is_err (FL2_endStream api)"
  shows "feed_respects is_err (finish_as_feed api)"
  unfolding feed_respects_def
proof (intro allI impI)
  fix e ob ib r e' ob' ib'
  assume a: "finish_as_feed api e ob ib = (r, e', ob', ib') \<and> \<not> is_err r
      \<and> pos_in ib \<le> size_in ib \<and> size_in ib \<le> length (src ib)
      \<and> pos_out ob \<le> size_out ob \<and> size_out ob \<le> length (dst ob)"
  then have "FL2_endStream api e ob = (r, e', ob')" and ib: "ib' = ib"
    by (auto simp: finish_as_feed_def split: prod.splits)
  with assms a have "size_out ob' = size_out ob \<and> pos_out ob \<le> pos_out ob'
      \<and> pos_out ob' \<le> size_out ob \<and> length (dst ob') = length (dst ob)"
    unfolding finish_respects_def by blast
  with ib a show "size_in ib' = size_in ib \<and> pos_in ib \<le> pos_in ib' \<and> pos_in ib' \<le> size_in ib
      \<and> src ib' = src ib \<and> size_out ob' = size_out ob \<and> pos_out ob \<le> pos_out ob'
      \<and> pos_out ob' \<le> size_out ob \<and> length (dst ob') = length (dst ob)"
    by simp
qed

lemma feed_respectsD:
  assumes "feed_respects is_err f" "f e ob ib = (r, e', ob', ib')" "\<not> is_err r"
    "pos_in ib \<le> size_in ib" "size_in ib \<le> length (src ib)"
    "pos_out ob \<le> size_out ob" "size_out ob \<le> length (dst ob)"
  shows "size_in ib' = size_in ib" "pos_in ib \<le> pos_in ib'" "pos_in ib' \<le> size_in ib"
    "src ib' = src ib" "size_out ob' = size_out ob" "pos_out ob \<le> pos_out ob'"
    "pos_out ob' \<le> size_out ob" "length (dst ob') = length (dst ob)"
  using assms unfolding feed_respects_def by blast+

text \<open>Writes to a stream that is good on a device without limit.\<close>

lemma ofstream_write_healthy:
  assumes "good fo" "room fo = None"
  shows "good (ofstream_write fo bs)" "room (ofstream_write fo bs) = None"
    "written (ofstream_write fo bs) = written fo @ bs"
  using assms by (simp_all add: ofstream_write_def)

text \<open>A stream that is good after a write was good before it and took every byte.\<close>

lemma ofstream_write_good:
  assumes "good (ofstream_write fo bs)"
  shows "good fo" "written (ofstream_write fo bs) = written fo @ bs"
  using assms by (auto simp: ofstream_write_def split: option.splits if_splits)

section \<open>The buffer invariant\<close>

lemma refill_buffers_ok:
  assumes "buffers_ok icap ocap s" "cap \<le> icap"
  shows "buffers_ok icap ocap (refill cap s)"
proof (cases "pos_in (in_buf s) = size_in (in_buf s)")
  case True
  from refill_full(1,2,3)[OF True, of cap] assms show ?thesis
    by (simp add: buffers_ok_def buf_inv_def)
next
  case False
  with assms show ?thesis by (simp add: refill_same)
qed

lemma pump_step_buffers_ok:
  assumes f: "feed_respects is_err f"
    and pre: "buffers_ok icap ocap (pre s)"
    and step: "pump_step is_err ev f pre s = Inr s'"
  shows "buffers_ok icap ocap s'"
proof -
  from step obtain r e ob ib
    where c: "f (ctx (pre s)) (out_buf (pre s)) (in_buf (pre s)) = (r, e, ob, ib)"
      and a: "after_call is_err ev (pre s) r e ob ib = Inr s'"
    by (rule pump_stepE)
  note ac = after_call_Inr[OF a]
  from pre have b: "pos_in (in_buf (pre s)) \<le> size_in (in_buf (pre s))"
      "size_in (in_buf (pre s)) \<le> length (src (in_buf (pre s)))"
      "pos_out (out_buf (pre s)) \<le> size_out (out_buf (pre s))"
      "size_out (out_buf (pre s)) \<le> length (dst (out_buf (pre s)))"
    by (auto simp: buffers_ok_def buf_inv_def)
  note r = feed_respectsD[OF f c ac(1) b]
  from pre ac r show ?thesis
    by (simp add: buffers_ok_def buf_inv_def)
qed

lemma compress_body_buffers_ok:
  assumes "api_respects api" "buffers_ok (8 * 1024) ocap s" "compress_body api s = Inr s'"
  shows "buffers_ok (8 * 1024) ocap s'"
proof -
  from assms(1) have r: "feed_respects (FL2_isError api) (FL2_compressStream api)"
    by (simp add: api_respects_def)
  from assms(3) have "pump_step (FL2_isError api) Ev_compressStream (FL2_compressStream api)
      (refill (8 * 1024)) s = Inr s'"
    by (simp only: compress_body_step)
  from pump_step_buffers_ok[OF r refill_buffers_ok[OF assms(2) order_refl] this]
  show ?thesis .
qed

lemma decompress_body_buffers_ok:
  assumes "api_respects api" "buffers_ok (4 * 1024) ocap s" "decompress_body api s = Inr s'"
  shows "buffers_ok (4 * 1024) ocap s'"
proof -
  from assms(1) have r: "feed_respects (FL2_isError api) (FL2_decompressStream api)"
    by (simp add: api_respects_def)
  from assms(3) have "pump_step (FL2_isError api) Ev_decompressStream (FL2_decompressStream api)
      (refill (4 * 1024)) s = Inr s'"
    by (simp only: decompress_body_step)
  from pump_step_buffers_ok[OF r refill_buffers_ok[OF assms(2) order_refl] this]
  show ?thesis .
qed

lemma finish_body_buffers_ok:
  assumes "api_respects api" "buffers_ok icap ocap s" "finish_body api s = Inr s'"
  shows "buffers_ok icap ocap s'"
proof -
  from assms(1) have "feed_respects (FL2_isError api) (finish_as_feed api)"
    by (simp add: api_respects_def finish_as_feed_respects)
  from pump_step_buffers_ok[where pre = id and s = s, OF this] assms(2,3)
  show ?thesis by (simp add: finish_body_step)
qed

lemma loop_boundaries_all:
  assumes "\<And>u u'. I u \<Longrightarrow> body u = Inr u' \<Longrightarrow> I u'" "I s"
  shows "list_all I (loop_boundaries n body cond s)"
  using assms(2)
proof (induction n arbitrary: s)
  case 0
  then show ?case by simp
next
  case (Suc n)
  show ?case
  proof (cases "body s")
    case (Inl e)
    with Suc.prems show ?thesis by simp
  next
    case (Inr s')
    with assms(1) Suc.prems have "I s'" by blast
    with Suc.IH[OF this] Inr Suc.prems show ?thesis by simp
  qed
qed

lemma compress_init_buffers_ok:
  "length in_buffer = 8 * 1024 \<Longrightarrow> length out_buffer = 4 * 1024 \<Longrightarrow>
   buffers_ok (8 * 1024) (4 * 1024) (compress_init in_buffer out_buffer c fi fo lg)"
  by (simp add: buffers_ok_def buf_inv_def compress_init_def)

lemma decompress_init_buffers_ok:
  "length in_buffer = 4 * 1024 \<Longrightarrow> length out_buffer = 8 * 1024 \<Longrightarrow>
   buffers_ok (4 * 1024) (8 * 1024) (decompress_init in_buffer out_buffer d fi fo lg)"
  by (simp add: buffers_ok_def buf_inv_def decompress_init_def)

lemma compress_loop_buffers_ok:
  assumes "api_respects api" "buffers_ok (8 * 1024) ocap s" "compress_loop api s = Some (Inr t)"
  shows "buffers_ok (8 * 1024) ocap t"
proof -
  from assms(3) have "do_while (compress_body api) (\<lambda>s. size_in (in_buf s) \<noteq> 0) s = Some (Inr t)"
    by (simp add: compress_loop_def)
  from do_while_Inr[where I = "buffers_ok (8 * 1024) ocap", OF this assms(2)]
    compress_body_buffers_ok[OF assms(1)]
  show ?thesis by blast
qed

lemma store_api_respects: "api_respects store_api"
  by (auto simp: api_respects_def feed_respects_def finish_respects_def store_api_def store_feed_def Let_def)

text \<open>
  Claim C8.  With a library that respects the buffers it is given, and arrays of the
  declared lengths, both buffers satisfy \<open>0 \<le> position \<le> size \<le> capacity\<close> at every
  iteration boundary: of the first loop of \<^verbatim>\<open>compress_file\<close>, of its second loop (entered
  with the state the first loop ended in), and of the loop of \<^verbatim>\<open>decompress_file\<close>.
\<close>

theorem buffer_invariant:
  assumes api: "api_respects api"
    and c: "length in_c = 8 * 1024" "length out_c = 4 * 1024"
    and d: "length in_d = 4 * 1024" "length out_d = 8 * 1024"
  shows "list_all (buf_inv (8 * 1024) (4 * 1024))
           (compress_boundaries n api (compress_init in_c out_c fcs fi fo lg))
     \<and> (compress_loop api (compress_init in_c out_c fcs fi fo lg) = Some (Inr t) \<longrightarrow>
          list_all (buf_inv (8 * 1024) (4 * 1024)) (finish_boundaries n api t))
     \<and> list_all (buf_inv (4 * 1024) (8 * 1024))
           (decompress_boundaries n api (decompress_init in_d out_d fds fi' fo' lg'))"
proof (intro conjI impI)
  have w: "list_all (buf_inv icap ocap) xs" if "list_all (buffers_ok icap ocap) xs"
    for icap ocap and xs :: "'x pump list"
    using that by (simp add: list_all_iff buffers_ok_def)
  let ?c0 = "compress_init in_c out_c fcs fi fo lg"
  have c0: "buffers_ok (8 * 1024) (4 * 1024) ?c0"
    by (rule compress_init_buffers_ok[OF c])
  have "list_all (buffers_ok (8 * 1024) (4 * 1024))
          (loop_boundaries n (compress_body api) (\<lambda>s. size_in (in_buf s) \<noteq> 0) ?c0)"
    by (rule loop_boundaries_all[where I = "buffers_ok (8 * 1024) (4 * 1024)",
          OF compress_body_buffers_ok[OF api] c0])
  then show "list_all (buf_inv (8 * 1024) (4 * 1024)) (compress_boundaries n api ?c0)"
    unfolding compress_boundaries_def by (rule w)
  let ?d0 = "decompress_init in_d out_d fds fi' fo' lg'"
  have d0: "buffers_ok (4 * 1024) (8 * 1024) ?d0"
    by (rule decompress_init_buffers_ok[OF d])
  have "list_all (buffers_ok (4 * 1024) (8 * 1024))
          (loop_boundaries n (decompress_body api)
             (\<lambda>s. res s \<noteq> 0 \<and> size_in (in_buf s) \<noteq> 0) ?d0)"
    by (rule loop_boundaries_all[where I = "buffers_ok (4 * 1024) (8 * 1024)",
          OF decompress_body_buffers_ok[OF api] d0])
  then show "list_all (buf_inv (4 * 1024) (8 * 1024)) (decompress_boundaries n api ?d0)"
    unfolding decompress_boundaries_def by (rule w)
  assume "compress_loop api ?c0 = Some (Inr t)"
  from compress_loop_buffers_ok[OF api c0 this]
  have t: "buffers_ok (8 * 1024) (4 * 1024) t" .
  have "list_all (buffers_ok (8 * 1024) (4 * 1024))
          (loop_boundaries n (finish_body api) (\<lambda>s. res s \<noteq> 0) t)"
    by (rule loop_boundaries_all[where I = "buffers_ok (8 * 1024) (4 * 1024)",
          OF finish_body_buffers_ok[OF api] t])
  then show "list_all (buf_inv (8 * 1024) (4 * 1024)) (finish_boundaries n api t)"
    unfolding finish_boundaries_def by (rule w)
qed

lemmas run_defs =
  compress_file_def compress_from_def compress_init_def compress_loop_def finish_loop_def
  decompress_file_def decompress_from_def decompress_init_def decompress_loop_def
  do_while.simps compress_body_def finish_body_def decompress_body_def
  refill_def drain_def ffread_def ffwrite_def ofstream_write_def error_out_def Let_def

lemmas store_defs = store_api_def store_feed_def

theorem buffer_invariant_witness:
  "api_respects store_api
   \<and> length (compress_boundaries 2 store_api
         (compress_init (replicate 8192 0) (replicate 4096 0) () \<lparr>unread = [1, 2, 3]\<rparr>
            \<lparr>written = [], good = True, room = None\<rparr> [])) = 3
   \<and> list_all (buf_inv (8 * 1024) (4 * 1024))
        (compress_boundaries 2 store_api
           (compress_init (replicate 8192 0) (replicate 4096 0) () \<lparr>unread = [1, 2, 3]\<rparr>
              \<lparr>written = [], good = True, room = None\<rparr> []))
   \<and> (\<exists>t. compress_loop store_api
              (compress_init (replicate 8192 0) (replicate 4096 0) () \<lparr>unread = [1, 2, 3]\<rparr>
                 \<lparr>written = [], good = True, room = None\<rparr> []) = Some (Inr t)
           \<and> list_all (buf_inv (8 * 1024) (4 * 1024)) (finish_boundaries 2 store_api t))
   \<and> list_all (buf_inv (4 * 1024) (8 * 1024))
        (decompress_boundaries 2 store_api
           (decompress_init (replicate 4096 0) (replicate 8192 0) [] \<lparr>unread = [1, 2, 3]\<rparr>
              \<lparr>written = [], good = True, room = None\<rparr> []))"
proof -
  let ?c0 = "compress_init (replicate 8192 0) (replicate 4096 0) () \<lparr>unread = [1, 2, 3]\<rparr>
               \<lparr>written = [], good = True, room = None\<rparr> []"
  have "\<exists>t. compress_loop store_api ?c0 = Some (Inr t)"
    by (simp add: run_defs store_defs)
  then obtain t where t: "compress_loop store_api ?c0 = Some (Inr t)" ..
  have len: "length (compress_boundaries 2 store_api ?c0) = 3"
    by (simp add: compress_boundaries_def numeral_2_eq_2 run_defs store_defs)
  have lens: "length (replicate 8192 (0 :: byte)) = 8 * 1024"
    "length (replicate 4096 (0 :: byte)) = 4 * 1024"
    by simp_all
  from buffer_invariant[OF store_api_respects lens lens(2,1), where n = 2 and t = t
      and fcs = "()" and fi = "\<lparr>unread = [1, 2, 3]\<rparr>"
      and fo = "\<lparr>written = [], good = True, room = None\<rparr>" and lg = "[]"
      and fds = "[]" and fi' = "\<lparr>unread = [1, 2, 3]\<rparr>"
      and fo' = "\<lparr>written = [], good = True, room = None\<rparr>" and lg' = "[]"]
    t len store_api_respects
  show ?thesis by blast
qed

section \<open>The input side\<close>

lemma refill_input_ok:
  assumes "input_ok n s" "0 < cap"
  shows "input_ok n (refill cap s)"
proof (cases "pos_in (in_buf s) = size_in (in_buf s)")
  case True
  from refill_full(1,5,6)[OF True, of cap] assms show ?thesis
    by (auto simp: input_ok_def min_def)
next
  case False
  with assms show ?thesis by (simp add: refill_same)
qed

lemma buffers_okD:
  assumes "buffers_ok icap ocap s"
  shows "pos_in (in_buf s) \<le> size_in (in_buf s)"
    "size_in (in_buf s) \<le> length (src (in_buf s))"
    "pos_out (out_buf s) \<le> size_out (out_buf s)"
    "size_out (out_buf s) \<le> length (dst (out_buf s))"
    "pos_out (out_buf s) = 0" "size_out (out_buf s) = ocap" "length (dst (out_buf s)) = ocap"
    "size_in (in_buf s) \<le> icap"
  using assms by (auto simp: buffers_ok_def buf_inv_def)

lemma pump_step_input_ok:
  assumes f: "feed_respects is_err f"
    and b: "buffers_ok icap ocap (pre s)"
    and i: "input_ok n (pre s)"
    and step: "pump_step is_err ev f pre s = Inr s'"
  shows "input_ok n s'"
proof -
  from step obtain r e ob ib
    where c: "f (ctx (pre s)) (out_buf (pre s)) (in_buf (pre s)) = (r, e, ob, ib)"
      and a: "after_call is_err ev (pre s) r e ob ib = Inr s'"
    by (rule pump_stepE)
  note ac = after_call_Inr[OF a]
  note r = feed_respectsD[OF f c ac(1) buffers_okD(1-4)[OF b]]
  from i ac r show ?thesis by (simp add: input_ok_def)
qed

text \<open>The test after a pass: the buffer has size 0 exactly when the pass read at the end of the file.\<close>

lemma pump_step_size_in:
  assumes f: "feed_respects is_err f"
    and b: "buffers_ok icap ocap s" and cap: "0 < cap" "cap \<le> icap"
    and step: "pump_step is_err ev f (refill cap) s = Inr s'"
  shows "size_in (in_buf s') = 0 \<longleftrightarrow>
           pos_in (in_buf s) = size_in (in_buf s) \<and> unread (fin s) = []"
proof -
  let ?s1 = "refill cap s"
  from step obtain r e ob ib
    where c: "f (ctx ?s1) (out_buf ?s1) (in_buf ?s1) = (r, e, ob, ib)"
      and a: "after_call is_err ev ?s1 r e ob ib = Inr s'"
    by (rule pump_stepE)
  note ac = after_call_Inr[OF a]
  note b1 = refill_buffers_ok[OF b cap(2)]
  note r = feed_respectsD[OF f c ac(1) buffers_okD(1-4)[OF b1]]
  from ac r have sz: "size_in (in_buf s') = size_in (in_buf ?s1)" by simp
  show ?thesis
  proof (cases "pos_in (in_buf s) = size_in (in_buf s)")
    case True
    from refill_full(1)[OF True, of cap] sz cap True show ?thesis by (auto simp: min_def)
  next
    case False
    with buffers_okD(1)[OF b] have "size_in (in_buf s) \<noteq> 0" by simp
    with False sz show ?thesis by (simp add: refill_same)
  qed
qed

section \<open>Termination of the compression loop\<close>

lemma refill_input_left:
  "input_left (refill cap s) = input_left s"
proof (cases "pos_in (in_buf s) = size_in (in_buf s)")
  case True
  from refill_full(1,3,5)[OF True, of cap] True show ?thesis
    by (simp add: input_left_def min_def)
next
  case False
  then show ?thesis by (simp add: refill_same)
qed

lemma pump_step_descends:
  assumes f: "feed_respects is_err f" and p: "feed_progress is_err f"
    and o: "feed_bounded is_err f owed"
    and b: "buffers_ok icap ocap s" and cap: "0 < cap" "cap \<le> icap" and oc: "0 < ocap"
    and step: "pump_step is_err ev f (refill cap) s = Inr s'"
    and cont: "size_in (in_buf s') \<noteq> 0"
  shows "(s', s) \<in> measures [input_left, \<lambda>s. owed (ctx s)]"
proof -
  let ?s1 = "refill cap s"
  from step obtain r e ob ib
    where c: "f (ctx ?s1) (out_buf ?s1) (in_buf ?s1) = (r, e, ob, ib)"
      and a: "after_call is_err ev ?s1 r e ob ib = Inr s'"
    by (rule pump_stepE)
  note ac = after_call_Inr[OF a]
  note b1 = refill_buffers_ok[OF b cap(2)]
  note bd = buffers_okD[OF b1]
  note r = feed_respectsD[OF f c ac(1) bd(1-4)]
  from pump_step_size_in[OF f b cap step] cont
  have "pos_in (in_buf s) \<noteq> size_in (in_buf s) \<or> unread (fin s) \<noteq> []" by blast
  then have lt: "pos_in (in_buf ?s1) < size_in (in_buf ?s1)"
  proof
    assume n: "pos_in (in_buf s) \<noteq> size_in (in_buf s)"
    with buffers_okD(1)[OF b] show ?thesis by (simp add: refill_same)
  next
    assume n: "unread (fin s) \<noteq> []"
    show ?thesis
    proof (cases "pos_in (in_buf s) = size_in (in_buf s)")
      case True
      from refill_full(1,3)[OF True, of cap] n cap show ?thesis by (simp add: min_def)
    next
      case False
      with buffers_okD(1)[OF b] show ?thesis by (simp add: refill_same)
    qed
  qed
  have il: "input_left s' = input_left s - (pos_in ib - pos_in (in_buf ?s1))"
    using ac r refill_input_left[of cap s] by (simp add: input_left_def)
  show ?thesis
  proof (cases "pos_in (in_buf ?s1) < pos_in ib")
    case True
    with r(3) lt have "input_left ?s1 \<ge> size_in (in_buf ?s1) - pos_in (in_buf ?s1)"
      by (simp add: input_left_def)
    with True r(3) il refill_input_left[of cap s] have "input_left s' < input_left s"
      by simp
    then show ?thesis by simp
  next
    case False
    with r(2) have same: "pos_in ib = pos_in (in_buf ?s1)" by simp
    from bd oc have room: "pos_out (out_buf ?s1) < size_out (out_buf ?s1)" by simp
    from p c ac(1) lt bd(2) room bd(4)
    have "pos_in (in_buf ?s1) < pos_in ib \<or> pos_out (out_buf ?s1) < pos_out ob"
      unfolding feed_progress_def by blast
    with same have "pos_out (out_buf ?s1) < pos_out ob" by simp
    moreover from o c ac(1) bd(1-4) same
    have "owed e + (pos_out ob - pos_out (out_buf ?s1)) \<le> owed (ctx ?s1)"
      unfolding feed_bounded_def by blast
    ultimately have "owed (ctx s') < owed (ctx s)" using ac(3) by simp
    with il same show ?thesis by simp
  qed
qed

lemma compress_body_ok:
  assumes "api_respects api" "buffers_ok (8 * 1024) ocap s \<and> input_ok n s"
    "compress_body api s = Inr s'"
  shows "buffers_ok (8 * 1024) ocap s' \<and> input_ok n s'"
proof -
  from assms(1) have r: "feed_respects (FL2_isError api) (FL2_compressStream api)"
    by (simp add: api_respects_def)
  from assms(3) have st: "pump_step (FL2_isError api) Ev_compressStream (FL2_compressStream api)
      (refill (8 * 1024)) s = Inr s'"
    by (simp only: compress_body_step)
  from assms(2) have b1: "buffers_ok (8 * 1024) ocap (refill (8 * 1024) s)"
    and i1: "input_ok n (refill (8 * 1024) s)"
    by (simp_all add: refill_buffers_ok refill_input_ok)
  from pump_step_buffers_ok[OF r b1 st] pump_step_input_ok[OF r b1 i1 st] show ?thesis ..
qed


lemma compress_init_input_ok:
  "input_ok (length (unread fi)) (compress_init in_buffer out_buffer c fi fo lg)"
  by (simp add: input_ok_def compress_init_def)


lemma store_api_progress:
  "feed_progress (FL2_isError store_api) (FL2_compressStream store_api)"
  by (auto simp: feed_progress_def store_api_def store_feed_def Let_def)

lemma store_api_bounded:
  "feed_bounded (FL2_isError store_api) (FL2_compressStream store_api) (\<lambda>_. 0)"
  by (auto simp: feed_bounded_def store_api_def store_feed_def Let_def)

lemma babble_api_respects: "api_respects babble_api"
  by (auto simp: api_respects_def feed_respects_def finish_respects_def babble_api_def
        store_api_def store_feed_def Let_def)

lemma babble_api_progress:
  "feed_progress (FL2_isError babble_api) (FL2_compressStream babble_api)"
  by (auto simp: feed_progress_def babble_api_def store_api_def)

text \<open>
  Claim C2, as the code has it.  With a library that respects the buffers, makes forward
  progress and cannot produce without bound while it reads nothing, the first loop of
  \<^verbatim>\<open>compress_file\<close> ends; when it ends at its test, the input buffer is empty and fully
  consumed and the file is at its end.  After a pass the loop goes on exactly when the
  pass began with unread bytes in the buffer or in the file.
\<close>

theorem compress_loop_terminates:
  assumes api: "api_respects api"
    and p: "feed_progress (FL2_isError api) (FL2_compressStream api)"
    and o: "feed_bounded (FL2_isError api) (FL2_compressStream api) owed"
    and len: "length in_buffer = 8 * 1024" "length out_buffer = 4 * 1024"
  shows "(\<exists>r. compress_loop api (compress_init in_buffer out_buffer fcs fi fo lg) = Some r
            \<and> (\<forall>t. r = Inr t \<longrightarrow>
                   size_in (in_buf t) = 0 \<and> pos_in (in_buf t) = 0 \<and> unread (fin t) = []))
     \<and> (u \<in> set (compress_boundaries n api (compress_init in_buffer out_buffer fcs fi fo lg))
            \<and> compress_body api u = Inr u' \<longrightarrow>
          (size_in (in_buf u') \<noteq> 0 \<longleftrightarrow>
             pos_in (in_buf u) < size_in (in_buf u) \<or> unread (fin u) \<noteq> []))"
proof (intro conjI impI)
  let ?c0 = "compress_init in_buffer out_buffer fcs fi fo lg"
  let ?I = "\<lambda>s. buffers_ok (8 * 1024) (4 * 1024) s \<and> input_ok (length (unread fi)) s"
  let ?body = "compress_body api" and ?cond = "\<lambda>s :: 'a pump. size_in (in_buf s) \<noteq> 0"
  let ?R = "measures [input_left, \<lambda>s. owed (ctx s)]"
  from api have r: "feed_respects (FL2_isError api) (FL2_compressStream api)"
    by (simp add: api_respects_def)
  have c0: "?I ?c0"
    by (intro conjI compress_init_buffers_ok[OF len] compress_init_input_ok)
  have step: "?I v' \<and> (v', v) \<in> ?R" if "?I v" "?body v = Inr v'" "?cond v'" for v v'
  proof
    from compress_body_ok[OF api that(1,2)] show "?I v'" .
    from that(2) have "pump_step (FL2_isError api) Ev_compressStream (FL2_compressStream api)
        (refill (8 * 1024)) v = Inr v'"
      by (simp only: compress_body_step)
    from pump_step_descends[OF r p o _ _ _ _ this that(3), of "8 * 1024" "4 * 1024"] that(1)
    show "(v', v) \<in> ?R" by simp
  qed
  have "\<exists>r. do_while ?body ?cond ?c0 = Some r"
    by (rule do_while_terminates[where I = ?I and R = ?R, OF c0 step]) simp_all
  then obtain r where run: "compress_loop api ?c0 = Some r"
    by (auto simp: compress_loop_def)
  have "size_in (in_buf t) = 0 \<and> pos_in (in_buf t) = 0 \<and> unread (fin t) = []" if "r = Inr t" for t
  proof -
    from run that have "do_while ?body ?cond ?c0 = Some (Inr t)" by (simp add: compress_loop_def)
    from do_while_Inr[where I = ?I, OF this c0] compress_body_ok[OF api]
    have "?I t \<and> \<not> ?cond t" by blast
    then show ?thesis using buffers_okD(1)[of "8 * 1024" "4 * 1024" t]
      by (simp add: input_ok_def)
  qed
  with run show "\<exists>r. compress_loop api ?c0 = Some r
     \<and> (\<forall>t. r = Inr t \<longrightarrow>
            size_in (in_buf t) = 0 \<and> pos_in (in_buf t) = 0 \<and> unread (fin t) = [])"
    by blast
  assume a: "u \<in> set (compress_boundaries n api ?c0) \<and> compress_body api u = Inr u'"
  have "list_all (buffers_ok (8 * 1024) (4 * 1024))
          (loop_boundaries n (compress_body api) (\<lambda>s. size_in (in_buf s) \<noteq> 0) ?c0)"
    by (rule loop_boundaries_all[where I = "buffers_ok (8 * 1024) (4 * 1024)",
          OF compress_body_buffers_ok[OF api] compress_init_buffers_ok[OF len]])
  with a have bu: "buffers_ok (8 * 1024) (4 * 1024) u"
    by (simp add: compress_boundaries_def list_all_iff)
  from a have "pump_step (FL2_isError api) Ev_compressStream (FL2_compressStream api)
      (refill (8 * 1024)) u = Inr u'"
    by (simp only: compress_body_step)
  from pump_step_size_in[OF r bu _ _ this] buffers_okD(1)[OF bu]
  show "size_in (in_buf u') \<noteq> 0 \<longleftrightarrow>
          pos_in (in_buf u) < size_in (in_buf u) \<or> unread (fin u) \<noteq> []"
    by auto
qed

theorem compress_loop_terminates_witness:
  "api_respects store_api
   \<and> feed_progress (FL2_isError store_api) (FL2_compressStream store_api)
   \<and> feed_bounded (FL2_isError store_api) (FL2_compressStream store_api) (\<lambda>_. 0)
   \<and> (\<exists>t. compress_loop store_api
              (compress_init (replicate 8192 0) (replicate 4096 0) () \<lparr>unread = [1, 2, 3]\<rparr>
                 \<lparr>written = [], good = True, room = None\<rparr> []) = Some (Inr t)
           \<and> size_in (in_buf t) = 0 \<and> pos_in (in_buf t) = 0 \<and> unread (fin t) = [])
   \<and> (\<exists>u'. compress_body store_api
              (compress_init (replicate 8192 0) (replicate 4096 0) () \<lparr>unread = [1, 2, 3]\<rparr>
                 \<lparr>written = [], good = True, room = None\<rparr> []) = Inr u'
           \<and> size_in (in_buf u') \<noteq> 0)"
proof -
  let ?c0 = "compress_init (replicate 8192 0) (replicate 4096 0) () \<lparr>unread = [1, 2, 3]\<rparr>
               \<lparr>written = [], good = True, room = None\<rparr> []"
  have lens: "length (replicate 8192 (0 :: byte)) = 8 * 1024"
    "length (replicate 4096 (0 :: byte)) = 4 * 1024"
    by simp_all
  have "\<exists>t. compress_loop store_api ?c0 = Some (Inr t)"
    by (simp add: run_defs store_defs)
  then obtain t where t: "compress_loop store_api ?c0 = Some (Inr t)" ..
  have "\<exists>u'. compress_body store_api ?c0 = Inr u'"
    by (simp add: run_defs store_defs)
  then obtain u' where u': "compress_body store_api ?c0 = Inr u'" ..
  have mem: "?c0 \<in> set (compress_boundaries 0 store_api ?c0)"
    by (simp add: compress_boundaries_def)
  have unr: "pos_in (in_buf ?c0) < size_in (in_buf ?c0) \<or> unread (fin ?c0) \<noteq> []"
    by (simp add: compress_init_def)
  from compress_loop_terminates[OF store_api_respects store_api_progress store_api_bounded lens,
      where fcs = "()" and fi = "\<lparr>unread = [1, 2, 3]\<rparr>"
        and fo = "\<lparr>written = [], good = True, room = None\<rparr>" and lg = "[]"
        and u = ?c0 and u' = u' and n = 0]
    t u' mem unr store_api_respects store_api_progress store_api_bounded
  show ?thesis by auto
qed

text \<open>
  Claim C2 as stated fails: a compressor that emits a byte on every call and never reads
  makes forward progress on every call, and the loop does not end on a one-byte file.
\<close>

theorem compress_loop_babble_counterexample:
  "api_respects babble_api
   \<and> feed_progress (FL2_isError babble_api) (FL2_compressStream babble_api)
   \<and> compress_loop babble_api
        (compress_init (replicate 8192 0) (replicate 4096 0) () \<lparr>unread = [1]\<rparr>
           \<lparr>written = [], good = True, room = None\<rparr> []) = None"
proof -
  let ?c0 = "compress_init (replicate 8192 0) (replicate 4096 0) () \<lparr>unread = [1]\<rparr>
               \<lparr>written = [], good = True, room = None\<rparr> []"
  let ?I = "\<lambda>s :: unit pump. size_out (out_buf s) = 4096 \<and> pos_out (out_buf s) = 0 \<and>
      (pos_in (in_buf s) = size_in (in_buf s) \<and> unread (fin s) \<noteq> []
       \<or> pos_in (in_buf s) < size_in (in_buf s))"
  have i0: "?I ?c0" by (simp add: compress_init_def)
  have step: "\<exists>u'. compress_body babble_api u = Inr u' \<and> size_in (in_buf u') \<noteq> 0 \<and> ?I u'"
    if "?I u" for u
  proof (cases "pos_in (in_buf u) = size_in (in_buf u)")
    case True
    with that have "unread (fin u) \<noteq> []" by auto
    then obtain x xs where "unread (fin u) = x # xs" by (cases "unread (fin u)") auto
    with True that show ?thesis
      by (simp add: compress_body_def refill_def ffread_def drain_def ffwrite_def Let_def
            babble_api_def store_api_def)
  next
    case False
    with that show ?thesis
      by (auto simp: compress_body_def refill_def drain_def ffwrite_def Let_def
            babble_api_def store_api_def)
  qed
  have "do_while (compress_body babble_api) (\<lambda>s. size_in (in_buf s) \<noteq> 0) ?c0 = None"
    by (rule do_while_diverges[where I = ?I, OF i0 step])
  then show ?thesis
    using babble_api_respects babble_api_progress by (simp add: compress_loop_def)
qed

section \<open>The condition of the decompression loop\<close>



section \<open>The actions of a pump\<close>

text \<open>
  The result of a loop is the result of its last pass, which began in a state that
  satisfies every invariant of the passes that go on.
\<close>

lemma do_while_last:
  assumes run: "do_while body cond s = Some r"
    and init: "I s"
    and step: "\<And>u u'. I u \<Longrightarrow> body u = Inr u' \<Longrightarrow> cond u' \<Longrightarrow> I u'"
  shows "\<exists>u. I u \<and> body u = r \<and> (\<forall>t. r = Inr t \<longrightarrow> \<not> cond t)"
proof -
  let ?Q = "\<lambda>b c r. \<exists>u. I u \<and> b u = r \<and> (\<forall>t. r = Inr t \<longrightarrow> \<not> c t)"
  let ?P = "\<lambda>b c s r. b = body \<longrightarrow> c = cond \<longrightarrow> I s \<longrightarrow> ?Q b c r"
  have "?P body cond s r"
  proof (rule do_while.raw_induct[where P = ?P, OF _ run])
    fix f b c s r
    assume ih: "\<And>b c s r. f b c s = Some r \<Longrightarrow> ?P b c s r"
      and eq: "(case b s of Inl e \<Rightarrow> Some (Inl e)
                | Inr s' \<Rightarrow> if c s' then f b c s' else Some (Inr s')) = Some r"
    show "?P b c s r"
    proof (intro impI)
      assume b: "b = body" and c: "c = cond" and i: "I s"
      show "?Q b c r"
      proof (cases "b s")
        case (Inl e)
        with eq have "r = Inl e" by simp
        with Inl i show ?thesis by auto
      next
        case (Inr s')
        show ?thesis
        proof (cases "c s'")
          case True
          with Inr i b c have i': "I s'" using step by blast
          from True Inr eq have "f b c s' = Some r" by simp
          from ih[OF this] b c i' show ?thesis by simp
        next
          case False
          with Inr eq have "r = Inr s'" by simp
          with False Inr i show ?thesis by auto
        qed
      qed
    qed
  qed
  with init show ?thesis by simp
qed

text \<open>
  The log of a loop whose body is a \<open>pump_step\<close>: every call before the last returned no
  error and a status that lets the loop go on; the last call decides how the loop is left.
\<close>

lemma pump_loop_log:
  assumes run: "do_while (pump_step is_err ev f pre) cond s0 = Some x"
    and pre: "\<And>s. log (pre s) = log s"
    and k: "\<And>s. cond s \<Longrightarrow> K (res s)"
  shows "\<exists>rs r. (\<forall>q \<in> set rs. \<not> is_err q \<and> K q)
           \<and> (case x of
                 Inr t \<Rightarrow> log t = log s0 @ map ev (rs @ [r]) \<and> \<not> is_err r \<and> res t = r \<and> \<not> cond t
                            \<and> pos_out (out_buf t) = 0
               | Inl e \<Rightarrow> log e = log s0 @ map ev (rs @ [r]) \<and> is_err r \<and> res e = r)"
proof -
  let ?I = "\<lambda>s. \<exists>rs. log s = log s0 @ map ev rs \<and> (\<forall>q \<in> set rs. \<not> is_err q \<and> K q)"
  have i0: "?I s0" by (rule exI[of _ "[]"]) simp
  have step: "?I u'" if "?I u" "pump_step is_err ev f pre u = Inr u'" "cond u'" for u u'
  proof -
    from that(1) obtain rs where rs: "log u = log s0 @ map ev rs" "\<forall>q \<in> set rs. \<not> is_err q \<and> K q"
      by blast
    from that(2) obtain r e ob ib where "after_call is_err ev (pre u) r e ob ib = Inr u'"
      by (rule pump_stepE)
    note ac = after_call_Inr[OF this]
    from ac(10) pre rs(1) have "log u' = log s0 @ map ev (rs @ [r])" by simp
    moreover from k[OF that(3)] ac(1,2) rs(2) have "\<forall>q \<in> set (rs @ [r]). \<not> is_err q \<and> K q"
      by simp
    ultimately show ?thesis by blast
  qed
  have "\<exists>u. ?I u \<and> pump_step is_err ev f pre u = x \<and> (\<forall>t. x = Inr t \<longrightarrow> \<not> cond t)"
    by (rule do_while_last[where I = ?I, OF run i0]) (rule step)
  then obtain u rs where u: "pump_step is_err ev f pre u = x" "\<forall>t. x = Inr t \<longrightarrow> \<not> cond t"
    and rs: "log u = log s0 @ map ev rs" "\<forall>q \<in> set rs. \<not> is_err q \<and> K q"
    by blast
  from u(1) obtain r e ob ib where a: "after_call is_err ev (pre u) r e ob ib = x"
    by (rule pump_stepE)
  show ?thesis
  proof (cases x)
    case (Inl e')
    note ac = after_call_Inl[OF a[unfolded Inl]]
    from ac pre rs(1) have "log e' = log s0 @ map ev (rs @ [r]) \<and> is_err r \<and> res e' = r" by simp
    with rs(2) Inl show ?thesis by auto
  next
    case (Inr t)
    note ac = after_call_Inr[OF a[unfolded Inr]]
    from ac pre rs(1) u(2) Inr
    have "log t = log s0 @ map ev (rs @ [r]) \<and> \<not> is_err r \<and> res t = r \<and> \<not> cond t
        \<and> pos_out (out_buf t) = 0" by simp
    with rs(2) Inr show ?thesis by auto
  qed
qed

lemma compress_loop_log:
  assumes "compress_loop api s0 = Some x"
  shows "\<exists>rs r. (\<forall>q \<in> set rs. \<not> FL2_isError api q)
           \<and> (case x of
                 Inr t \<Rightarrow> log t = log s0 @ map Ev_compressStream (rs @ [r])
                            \<and> \<not> FL2_isError api r \<and> res t = r
               | Inl e \<Rightarrow> log e = log s0 @ map Ev_compressStream (rs @ [r])
                            \<and> FL2_isError api r \<and> res e = r)"
proof -
  from assms have "do_while (pump_step (FL2_isError api) Ev_compressStream (FL2_compressStream api)
      (refill (8 * 1024))) (\<lambda>s. size_in (in_buf s) \<noteq> 0) s0 = Some x"
    by (simp add: compress_loop_def compress_body_step)
  from pump_loop_log[where K = "\<lambda>_. True", OF this]
  obtain rs r where "(\<forall>q \<in> set rs. \<not> FL2_isError api q \<and> True)
           \<and> (case x of
                 Inr t \<Rightarrow> log t = log s0 @ map Ev_compressStream (rs @ [r])
                            \<and> \<not> FL2_isError api r \<and> res t = r \<and> \<not> size_in (in_buf t) \<noteq> 0
                            \<and> pos_out (out_buf t) = 0
               | Inl e \<Rightarrow> log e = log s0 @ map Ev_compressStream (rs @ [r])
                            \<and> FL2_isError api r \<and> res e = r)"
    by auto
  then show ?thesis by (cases x) auto
qed

lemma decompress_loop_log:
  assumes "decompress_loop api s0 = Some x"
  shows "\<exists>rs r. (\<forall>q \<in> set rs. \<not> FL2_isError api q \<and> q \<noteq> 0)
           \<and> (case x of
                 Inr t \<Rightarrow> log t = log s0 @ map Ev_decompressStream (rs @ [r])
                            \<and> \<not> FL2_isError api r \<and> res t = r
               | Inl e \<Rightarrow> log e = log s0 @ map Ev_decompressStream (rs @ [r])
                            \<and> FL2_isError api r \<and> res e = r)"
proof -
  from assms have "do_while (pump_step (FL2_isError api) Ev_decompressStream (FL2_decompressStream api)
      (refill (4 * 1024))) (\<lambda>s. res s \<noteq> 0 \<and> size_in (in_buf s) \<noteq> 0) s0 = Some x"
    by (simp add: decompress_loop_def decompress_body_step)
  from pump_loop_log[where K = "\<lambda>q. q \<noteq> 0", OF this]
  obtain rs r where "(\<forall>q \<in> set rs. \<not> FL2_isError api q \<and> q \<noteq> 0)
           \<and> (case x of
                 Inr t \<Rightarrow> log t = log s0 @ map Ev_decompressStream (rs @ [r])
                            \<and> \<not> FL2_isError api r \<and> res t = r
                            \<and> \<not> (res t \<noteq> 0 \<and> size_in (in_buf t) \<noteq> 0)
                            \<and> pos_out (out_buf t) = 0
               | Inl e \<Rightarrow> log e = log s0 @ map Ev_decompressStream (rs @ [r])
                            \<and> FL2_isError api r \<and> res e = r)"
    by auto
  then show ?thesis by (cases x) auto
qed

lemma finish_loop_log:
  assumes "finish_loop api s0 = Some x"
  shows "\<exists>rs r. (\<forall>q \<in> set rs. \<not> FL2_isError api q \<and> q \<noteq> 0)
           \<and> (case x of
                 Inr t \<Rightarrow> log t = log s0 @ map Ev_endStream (rs @ [r])
                            \<and> \<not> FL2_isError api r \<and> res t = r \<and> r = 0
                            \<and> pos_out (out_buf t) = 0
               | Inl e \<Rightarrow> log e = log s0 @ map Ev_endStream (rs @ [r])
                            \<and> FL2_isError api r \<and> res e = r)"
proof -
  from assms have "do_while (pump_step (FL2_isError api) Ev_endStream (finish_as_feed api) id)
      (\<lambda>s. res s \<noteq> 0) s0 = Some x"
    by (simp add: finish_loop_def finish_body_step)
  from pump_loop_log[where K = "\<lambda>q. q \<noteq> 0", OF this]
  obtain rs r where "(\<forall>q \<in> set rs. \<not> FL2_isError api q \<and> q \<noteq> 0)
           \<and> (case x of
                 Inr t \<Rightarrow> log t = log s0 @ map Ev_endStream (rs @ [r])
                            \<and> \<not> FL2_isError api r \<and> res t = r \<and> \<not> res t \<noteq> 0
                            \<and> pos_out (out_buf t) = 0
               | Inl e \<Rightarrow> log e = log s0 @ map Ev_endStream (rs @ [r])
                            \<and> FL2_isError api r \<and> res e = r)"
    by auto
  then show ?thesis by (cases x) auto
qed

lemma compress_from_log:
  assumes "compress_from api s0 = Some (rc, t)"
  shows "\<exists>rs1 rs2.
           log t = log s0 @ map Ev_compressStream rs1 @ map Ev_endStream rs2
                   @ (if rc = 0 then [counts_event True t] else error_events api (res t))
           \<and> rs1 \<noteq> [] \<and> (\<forall>q \<in> set (butlast (rs1 @ rs2)). \<not> FL2_isError api q)
           \<and> res t = last (rs1 @ rs2) \<and> (\<forall>q \<in> set (butlast rs2). q \<noteq> 0)
           \<and> (rc = 0 \<and> rs2 \<noteq> [] \<and> last rs2 = 0 \<and> \<not> FL2_isError api (res t)
                  \<and> pos_out (out_buf t) = 0
                \<or> rc = 1 \<and> FL2_isError api (res t))"
proof (cases "compress_loop api s0")
  case None
  with assms show ?thesis by (simp add: compress_from_def)
next
  case (Some x)
  from compress_loop_log[OF Some] obtain rs r
    where rs: "\<forall>q \<in> set rs. \<not> FL2_isError api q"
      and x: "case x of
                Inr t \<Rightarrow> log t = log s0 @ map Ev_compressStream (rs @ [r])
                           \<and> \<not> FL2_isError api r \<and> res t = r
              | Inl e \<Rightarrow> log e = log s0 @ map Ev_compressStream (rs @ [r])
                           \<and> FL2_isError api r \<and> res e = r"
    by blast
  show ?thesis
  proof (cases x)
    case (Inl e)
    with assms Some have t: "rc = 1" "t = snd (error_out api e)"
      by (auto simp: compress_from_def error_out_def)
    from x Inl have e: "log e = log s0 @ map Ev_compressStream (rs @ [r])"
      "FL2_isError api r" "res e = r" by simp_all
    from t e have "log t = log s0 @ map Ev_compressStream (rs @ [r]) @ map Ev_endStream []
        @ (if rc = 0 then [counts_event True t] else error_events api (res t))"
      "res t = r"
      by (simp_all add: error_out_def error_events_def)
    with rs e(2) t(1) show ?thesis
      by (intro exI[of _ "rs @ [r]"] exI[of _ "[]"]) simp
  next
    case (Inr s)
    from x Inr have s: "log s = log s0 @ map Ev_compressStream (rs @ [r])"
      "\<not> FL2_isError api r" by simp_all
    show ?thesis
    proof (cases "finish_loop api s")
      case None
      with assms Some Inr show ?thesis by (simp add: compress_from_def)
    next
      case fl: (Some y)
      from finish_loop_log[OF fl] obtain rs' r'
        where rs': "\<forall>q \<in> set rs'. \<not> FL2_isError api q \<and> q \<noteq> 0"
          and y: "case y of
                    Inr t \<Rightarrow> log t = log s @ map Ev_endStream (rs' @ [r'])
                               \<and> \<not> FL2_isError api r' \<and> res t = r' \<and> r' = 0
                               \<and> pos_out (out_buf t) = 0
                  | Inl e \<Rightarrow> log e = log s @ map Ev_endStream (rs' @ [r'])
                               \<and> FL2_isError api r' \<and> res e = r'"
        by blast
      have bl: "butlast ((rs @ [r]) @ rs' @ [r']) = rs @ [r] @ rs'"
        by (simp add: butlast_append)
      show ?thesis
      proof (cases y)
        case (Inl e)
        with assms Some Inr fl have t: "rc = 1" "t = snd (error_out api e)"
          by (auto simp: compress_from_def error_out_def)
        from y Inl have e: "log e = log s @ map Ev_endStream (rs' @ [r'])"
          "FL2_isError api r'" "res e = r'" by simp_all
        from t e s have "log t = log s0 @ map Ev_compressStream (rs @ [r])
            @ map Ev_endStream (rs' @ [r'])
            @ (if rc = 0 then [counts_event True t] else error_events api (res t))"
          "res t = r'"
          by (simp_all add: error_out_def error_events_def)
        with rs rs' s(2) e(2) t(1) bl show ?thesis
          by (intro exI[of _ "rs @ [r]"] exI[of _ "rs' @ [r']"]) auto
      next
        case (Inr t')
        with assms Some \<open>x = Inr s\<close> fl
        have t: "rc = 0" "t = t'\<lparr>log := log t' @ [counts_event True t']\<rparr>"
          by (auto simp: compress_from_def counts_event_def)
        from y have "log t' = log s @ map Ev_endStream (rs' @ [r'])
            \<and> \<not> FL2_isError api r' \<and> res t' = r' \<and> r' = 0 \<and> pos_out (out_buf t') = 0"
          unfolding Inr by auto
        then have e: "log t' = log s @ map Ev_endStream (rs' @ [r'])"
          "\<not> FL2_isError api r'" "res t' = r'" "r' = 0" "pos_out (out_buf t') = 0" by blast+
        from t e s have "log t = log s0 @ map Ev_compressStream (rs @ [r])
            @ map Ev_endStream (rs' @ [r'])
            @ (if rc = 0 then [counts_event True t] else error_events api (res t))"
          "res t = r'"
          by (simp_all add: counts_event_def)
        moreover from t e(5) have "pos_out (out_buf t) = 0" by simp
        ultimately show ?thesis using rs rs' s(2) e(2,4) t(1) bl
          by (intro exI[of _ "rs @ [r]"] exI[of _ "rs' @ [r']"]) auto
      qed
    qed
  qed
qed

lemma decompress_from_log:
  assumes "decompress_from api s0 = Some (rc, t)"
  shows "\<exists>rs. log t = log s0 @ map Ev_decompressStream rs
                   @ (if rc = 0 then [counts_event False t] else error_events api (res t))
           \<and> rs \<noteq> [] \<and> (\<forall>q \<in> set (butlast rs). \<not> FL2_isError api q \<and> q \<noteq> 0)
           \<and> res t = last rs
           \<and> (rc = 0 \<and> \<not> FL2_isError api (res t) \<or> rc = 1 \<and> FL2_isError api (res t))"
proof (cases "decompress_loop api s0")
  case None
  with assms show ?thesis by (simp add: decompress_from_def)
next
  case (Some x)
  from decompress_loop_log[OF Some] obtain rs r
    where rs: "\<forall>q \<in> set rs. \<not> FL2_isError api q \<and> q \<noteq> 0"
      and x: "case x of
                Inr t \<Rightarrow> log t = log s0 @ map Ev_decompressStream (rs @ [r])
                           \<and> \<not> FL2_isError api r \<and> res t = r
              | Inl e \<Rightarrow> log e = log s0 @ map Ev_decompressStream (rs @ [r])
                           \<and> FL2_isError api r \<and> res e = r"
    by blast
  show ?thesis
  proof (cases x)
    case (Inl e)
    with assms Some have t: "rc = 1" "t = snd (error_out api e)"
      by (auto simp: decompress_from_def error_out_def)
    from x Inl have e: "log e = log s0 @ map Ev_decompressStream (rs @ [r])"
      "FL2_isError api r" "res e = r" by simp_all
    from t e have "log t = log s0 @ map Ev_decompressStream (rs @ [r])
        @ (if rc = 0 then [counts_event False t] else error_events api (res t))"
      "res t = r"
      by (simp_all add: error_out_def error_events_def)
    with rs e(2) t(1) show ?thesis
      by (intro exI[of _ "rs @ [r]"]) simp
  next
    case (Inr t')
    with assms Some have t: "rc = 0" "t = t'\<lparr>log := log t' @ [counts_event False t']\<rparr>"
      by (auto simp: decompress_from_def counts_event_def)
    from x Inr have e: "log t' = log s0 @ map Ev_decompressStream (rs @ [r])"
      "\<not> FL2_isError api r" "res t' = r" by simp_all
    from t e have "log t = log s0 @ map Ev_decompressStream (rs @ [r])
        @ (if rc = 0 then [counts_event False t] else error_events api (res t))"
      "res t = r"
      by (simp_all add: counts_event_def)
    with rs e(2) t(1) show ?thesis
      by (intro exI[of _ "rs @ [r]"]) simp
  qed
qed

section \<open>The actions of a run\<close>










lemmas main_defs =
  main_run_def create_init_fl2_streams_def open_files_def exit_fail_def exit_1_def cleanup_def
  env_with_def env_no_input_def env_no_output_def















section \<open>The finalisation phase\<close>

text \<open>
  Claim C3.  A run of \<^verbatim>\<open>compress_file\<close> that returns 0 has made its feed calls and then
  at least one finish call; every finish call but the last returned a status that is
  neither zero nor an error, and the last returned zero; the output buffer is left empty.
  A pass of the second loop that reaches the test has handed the bytes the finish call
  produced, \<^verbatim>\<open>out_buf.pos\<close> of them, to the output stream, counted them and reset the
  position: a stream that is good after the pass holds these bytes behind what it held
  before, and a stream that was good on a device without limit is good after the pass.
  A run of \<^verbatim>\<open>decompress_file\<close> makes only feed calls: after the last of them comes the
  report or the error message.
\<close>

theorem finalization_phase:
  "(compress_file api in_c out_c fcs fi fo lg = Some (0, t) \<longrightarrow>
      (\<exists>rs1 rs2.
         log t = lg @ map Ev_compressStream rs1 @ map Ev_endStream rs2 @ [counts_event True t]
         \<and> rs2 \<noteq> [] \<and> last rs2 = 0
         \<and> (\<forall>q \<in> set (butlast rs2). q \<noteq> 0 \<and> \<not> FL2_isError api q)
         \<and> pos_out (out_buf t) = 0))
   \<and> (finish_body api s = Inr s' \<longrightarrow>
        (\<exists>r c ob.
           FL2_endStream api (ctx s) (out_buf s) = (r, c, ob) \<and> \<not> FL2_isError api r
           \<and> fout s' = ofstream_write (fout s) (take (pos_out ob) (dst ob))
           \<and> (good (fout s') \<longrightarrow>
                 written (fout s') = written (fout s) @ take (pos_out ob) (dst ob))
           \<and> (good (fout s') \<and> pos_out ob \<le> length (dst ob) \<longrightarrow>
                 length (written (fout s')) = length (written (fout s)) + pos_out ob)
           \<and> (good (fout s) \<and> room (fout s) = None \<longrightarrow> good (fout s'))
           \<and> out_size s' = out_size s + pos_out ob
           \<and> out_buf s' = ob\<lparr>pos_out := 0\<rparr>
           \<and> res s' = r
           \<and> log s' = log s @ [Ev_endStream r]))
   \<and> (decompress_file api in_d out_d fds fi' fo' lg' = Some (rc, t') \<longrightarrow>
        (\<exists>rs. log t' = lg' @ map Ev_decompressStream rs
                   @ (if rc = 0 then [counts_event False t'] else error_events api (res t'))))"
proof (rule conjI, rule impI, rule_tac [2] conjI, rule_tac [2] impI, rule_tac [3] impI)
  assume "compress_file api in_c out_c fcs fi fo lg = Some (0, t)"
  then have "compress_from api (compress_init in_c out_c fcs fi fo lg) = Some (0, t)"
    by (simp add: compress_file_def)
  from compress_from_log[OF this] obtain rs1 rs2
    where lg: "log t = lg @ map Ev_compressStream rs1 @ map Ev_endStream rs2 @ [counts_event True t]"
      and ok: "\<forall>q \<in> set (butlast (rs1 @ rs2)). \<not> FL2_isError api q"
      and nz: "\<forall>q \<in> set (butlast rs2). q \<noteq> 0"
      and z: "rs2 \<noteq> []" "last rs2 = 0" "pos_out (out_buf t) = 0"
    by (auto simp: compress_init_def)
  from ok z(1) have "\<forall>q \<in> set (butlast rs2). \<not> FL2_isError api q"
    by (simp add: butlast_append)
  with lg nz z show "\<exists>rs1 rs2.
         log t = lg @ map Ev_compressStream rs1 @ map Ev_endStream rs2 @ [counts_event True t]
         \<and> rs2 \<noteq> [] \<and> last rs2 = 0
         \<and> (\<forall>q \<in> set (butlast rs2). q \<noteq> 0 \<and> \<not> FL2_isError api q)
         \<and> pos_out (out_buf t) = 0"
    by blast
next
  assume fb: "finish_body api s = Inr s'"
  obtain r c ob where call: "FL2_endStream api (ctx s) (out_buf s) = (r, c, ob)"
    by (cases "FL2_endStream api (ctx s) (out_buf s)")
  from fb call have ne: "\<not> FL2_isError api r"
    and w: "fout s' = ofstream_write (fout s) (take (pos_out ob) (dst ob))"
    and rest: "out_size s' = out_size s + pos_out ob" "out_buf s' = ob\<lparr>pos_out := 0\<rparr>"
      "res s' = r" "log s' = log s @ [Ev_endStream r]"
    by (auto simp: finish_body_def drain_def ffwrite_def Let_def split: if_splits)
  have g: "written (fout s') = written (fout s) @ take (pos_out ob) (dst ob)" if "good (fout s')"
    using that ofstream_write_good(2)[of "fout s" "take (pos_out ob) (dst ob)"] w by simp
  then have l: "good (fout s') \<and> pos_out ob \<le> length (dst ob) \<longrightarrow>
                 length (written (fout s')) = length (written (fout s)) + pos_out ob"
    by simp
  have h: "good (fout s) \<and> room (fout s) = None \<longrightarrow> good (fout s')"
    using ofstream_write_healthy(1)[of "fout s" "take (pos_out ob) (dst ob)"] w by simp
  from call ne w g l h rest
  show "\<exists>r c ob.
           FL2_endStream api (ctx s) (out_buf s) = (r, c, ob) \<and> \<not> FL2_isError api r
           \<and> fout s' = ofstream_write (fout s) (take (pos_out ob) (dst ob))
           \<and> (good (fout s') \<longrightarrow>
                 written (fout s') = written (fout s) @ take (pos_out ob) (dst ob))
           \<and> (good (fout s') \<and> pos_out ob \<le> length (dst ob) \<longrightarrow>
                 length (written (fout s')) = length (written (fout s)) + pos_out ob)
           \<and> (good (fout s) \<and> room (fout s) = None \<longrightarrow> good (fout s'))
           \<and> out_size s' = out_size s + pos_out ob
           \<and> out_buf s' = ob\<lparr>pos_out := 0\<rparr>
           \<and> res s' = r
           \<and> log s' = log s @ [Ev_endStream r]"
    by blast
next
  assume "decompress_file api in_d out_d fds fi' fo' lg' = Some (rc, t')"
  then have "decompress_from api (decompress_init in_d out_d fds fi' fo' lg') = Some (rc, t')"
    by (simp add: decompress_file_def)
  from decompress_from_log[OF this]
  show "\<exists>rs. log t' = lg' @ map Ev_decompressStream rs
                   @ (if rc = 0 then [counts_event False t'] else error_events api (res t'))"
    by (auto simp: decompress_init_def)
qed

lemma store_compress_run:
  "\<exists>t. compress_file store_api (replicate 8192 0) (replicate 4096 0) () \<lparr>unread = [1, 2, 3]\<rparr>
          \<lparr>written = [], good = True, room = None\<rparr> [] = Some (0, t)
       \<and> log t = [Ev_compressStream 0, Ev_compressStream 0, Ev_endStream 0,
                  Ev_stdout_counts ''Compressed: %lld -> %lld\<newline>'' 3 3]
       \<and> written (fout t) = [1, 2, 3] \<and> in_size t = 3 \<and> out_size t = 3"
  by (simp add: run_defs store_defs)

lemma store_decompress_run:
  "\<exists>t. decompress_file store_api (replicate 4096 0) (replicate 8192 0) [] \<lparr>unread = [1, 2, 3]\<rparr>
          \<lparr>written = [], good = True, room = None\<rparr> [] = Some (0, t)
       \<and> log t = [Ev_decompressStream 1, Ev_decompressStream 1,
                  Ev_stdout_counts (CHR 0x09 # ''Decompressed: %lld -> %lld\<newline>'') 3 3]
       \<and> written (fout t) = [1, 2, 3] \<and> in_size t = 3 \<and> out_size t = 3"
  by (simp add: run_defs store_defs)

text \<open>A run with a trailer of two bytes: two finish calls, and what the output holds.\<close>

lemma trailer_compress_run:
  "\<exists>t. compress_file trailer_api (replicate 8192 0) (replicate 4096 0) 2 \<lparr>unread = [1, 2, 3]\<rparr>
          \<lparr>written = [], good = True, room = None\<rparr> [] = Some (0, t)
       \<and> log t = [Ev_compressStream 0, Ev_compressStream 0, Ev_endStream 1, Ev_endStream 0,
                  Ev_stdout_counts ''Compressed: %lld -> %lld\<newline>'' 3 5]
       \<and> written (fout t) = [1, 2, 3, 170, 170] \<and> in_size t = 3 \<and> out_size t = 5"
  by (simp add: run_defs trailer_api_def store_feed_def)

lemma trailer_finish_pass:
  "\<exists>s'. finish_body trailer_api
          \<lparr>in_buf = \<lparr>src = [], size_in = 0, pos_in = 0\<rparr>,
           out_buf = \<lparr>dst = [0, 0], size_out = 2, pos_out = 0\<rparr>,
           res = 0, in_size = 3, out_size = 3, ctx = 2, fin = \<lparr>unread = []\<rparr>,
           fout = \<lparr>written = [1, 2, 3], good = True, room = None\<rparr>, log = []\<rparr> = Inr s'
        \<and> good (fout s') \<and> res s' = 1 \<and> out_size s' = 4"
  by (simp add: run_defs trailer_api_def)

theorem finalization_phase_witness:
  "(\<exists>t. compress_file trailer_api (replicate 8192 0) (replicate 4096 0) 2 \<lparr>unread = [1, 2, 3]\<rparr>
          \<lparr>written = [], good = True, room = None\<rparr> [] = Some (0, t)
       \<and> log t = [] @ map Ev_compressStream [0, 0] @ map Ev_endStream [1, 0]
                  @ [counts_event True t]
       \<and> pos_out (out_buf t) = 0 \<and> written (fout t) = [1, 2, 3, 170, 170])
   \<and> (\<exists>s'. finish_body trailer_api
          \<lparr>in_buf = \<lparr>src = [], size_in = 0, pos_in = 0\<rparr>,
           out_buf = \<lparr>dst = [0, 0], size_out = 2, pos_out = 0\<rparr>,
           res = 0, in_size = 3, out_size = 3, ctx = 2, fin = \<lparr>unread = []\<rparr>,
           fout = \<lparr>written = [1, 2, 3], good = True, room = None\<rparr>, log = []\<rparr> = Inr s'
        \<and> FL2_endStream trailer_api 2 \<lparr>dst = [0, 0], size_out = 2, pos_out = 0\<rparr>
            = (1, 1, \<lparr>dst = [170, 0], size_out = 2, pos_out = 1\<rparr>)
        \<and> good (fout s') \<and> written (fout s') = [1, 2, 3] @ take 1 [170, 0]
        \<and> out_size s' = 3 + 1 \<and> out_buf s' = \<lparr>dst = [170, 0], size_out = 2, pos_out = 0\<rparr>)
   \<and> (\<exists>t'. decompress_file store_api (replicate 4096 0) (replicate 8192 0) []
          \<lparr>unread = [1, 2, 3]\<rparr> \<lparr>written = [], good = True, room = None\<rparr> [] = Some (0, t')
       \<and> log t' = [] @ map Ev_decompressStream [1, 1] @ [counts_event False t'])"
proof -
  define s0 :: "nat pump" where "s0 =
          \<lparr>in_buf = \<lparr>src = [], size_in = 0, pos_in = 0\<rparr>,
           out_buf = \<lparr>dst = [0, 0], size_out = 2, pos_out = 0\<rparr>,
           res = 0, in_size = 3, out_size = 3, ctx = 2, fin = \<lparr>unread = []\<rparr>,
           fout = \<lparr>written = [1, 2, 3], good = True, room = None\<rparr>, log = []\<rparr>"
  from trailer_compress_run obtain t
    where t: "compress_file trailer_api (replicate 8192 0) (replicate 4096 0) 2
          \<lparr>unread = [1, 2, 3]\<rparr> \<lparr>written = [], good = True, room = None\<rparr> [] = Some (0, t)"
      "log t = [Ev_compressStream 0, Ev_compressStream 0, Ev_endStream 1, Ev_endStream 0,
                  Ev_stdout_counts ''Compressed: %lld -> %lld\<newline>'' 3 5]"
      "written (fout t) = [1, 2, 3, 170, 170]" "in_size t = 3" "out_size t = 5"
    by blast
  from trailer_finish_pass obtain s'
    where s': "finish_body trailer_api s0 = Inr s'" "good (fout s')"
    unfolding s0_def by blast
  from store_decompress_run obtain t'
    where t': "decompress_file store_api (replicate 4096 0) (replicate 8192 0) []
          \<lparr>unread = [1, 2, 3]\<rparr> \<lparr>written = [], good = True, room = None\<rparr> [] = Some (0, t')"
      "log t' = [Ev_decompressStream 1, Ev_decompressStream 1,
                  Ev_stdout_counts (CHR 0x09 # ''Decompressed: %lld -> %lld\<newline>'') 3 3]"
      "in_size t' = 3" "out_size t' = 3"
    by blast
  have call: "FL2_endStream trailer_api 2 \<lparr>dst = [0, 0], size_out = 2, pos_out = 0\<rparr>
            = (1, 1, \<lparr>dst = [170, 0], size_out = 2, pos_out = 1\<rparr>)"
    by (simp add: trailer_api_def)
  note inst1 = finalization_phase[where api = trailer_api and t = t
      and in_c = "replicate 8192 0" and out_c = "replicate 4096 0" and fcs = 2
      and fi = "\<lparr>unread = [1, 2, 3]\<rparr>" and fo = "\<lparr>written = [], good = True, room = None\<rparr>"
      and lg = "[]" and s = s0 and s' = s']
  from inst1 t(1) have p: "pos_out (out_buf t) = 0" by blast
  from inst1 s'(1) obtain r c ob
    where q: "FL2_endStream trailer_api (ctx s0) (out_buf s0) = (r, c, ob)"
      "good (fout s') \<longrightarrow> written (fout s') = written (fout s0) @ take (pos_out ob) (dst ob)"
      "out_size s' = out_size s0 + pos_out ob" "out_buf s' = ob\<lparr>pos_out := 0\<rparr>"
    by blast
  from q(1) call have ob: "ob = \<lparr>dst = [170, 0], size_out = 2, pos_out = 1\<rparr>"
    by (auto simp: s0_def)
  from q(2-4) s'(2) ob
  have w: "written (fout s') = [1, 2, 3] @ take 1 [170, 0]" "out_size s' = 3 + 1"
    "out_buf s' = \<lparr>dst = [170, 0], size_out = 2, pos_out = 0\<rparr>"
    by (simp_all add: s0_def)
  from t p have A: "\<exists>t. compress_file trailer_api (replicate 8192 0) (replicate 4096 0) 2
          \<lparr>unread = [1, 2, 3]\<rparr> \<lparr>written = [], good = True, room = None\<rparr> [] = Some (0, t)
       \<and> log t = [] @ map Ev_compressStream [0, 0] @ map Ev_endStream [1, 0]
                  @ [counts_event True t]
       \<and> pos_out (out_buf t) = 0 \<and> written (fout t) = [1, 2, 3, 170, 170]"
    by (auto simp: counts_event_def)
  from s' call w have B: "\<exists>s'. finish_body trailer_api s0 = Inr s'
        \<and> FL2_endStream trailer_api 2 \<lparr>dst = [0, 0], size_out = 2, pos_out = 0\<rparr>
            = (1, 1, \<lparr>dst = [170, 0], size_out = 2, pos_out = 1\<rparr>)
        \<and> good (fout s') \<and> written (fout s') = [1, 2, 3] @ take 1 [170, 0]
        \<and> out_size s' = 3 + 1 \<and> out_buf s' = \<lparr>dst = [170, 0], size_out = 2, pos_out = 0\<rparr>"
    by blast
  from t' have C: "\<exists>t'. decompress_file store_api (replicate 4096 0) (replicate 8192 0) []
          \<lparr>unread = [1, 2, 3]\<rparr> \<lparr>written = [], good = True, room = None\<rparr> [] = Some (0, t')
       \<and> log t' = [] @ map Ev_decompressStream [1, 1] @ [counts_event False t']"
    by (auto simp: counts_event_def)
  from A B C show ?thesis unfolding s0_def by blast
qed

section \<open>The output stream is never inspected\<close>

lemma do_while_sim:
  assumes run: "do_while b1 c1 s1 = Some r1"
    and R: "R s1 s2"
    and step: "\<And>u1 u2. R u1 u2 \<Longrightarrow> rel_sum R R (b1 u1) (b2 u2)"
    and cond: "\<And>u1 u2. R u1 u2 \<Longrightarrow> c1 u1 = c2 u2"
  shows "\<exists>r2. do_while b2 c2 s2 = Some r2 \<and> rel_sum R R r1 r2"
proof -
  let ?P = "\<lambda>b c s r. b = b1 \<longrightarrow> c = c1 \<longrightarrow>
      (\<forall>s2. R s s2 \<longrightarrow> (\<exists>r2. do_while b2 c2 s2 = Some r2 \<and> rel_sum R R r r2))"
  have "?P b1 c1 s1 r1"
  proof (rule do_while.raw_induct[where P = ?P, OF _ run])
    fix f b c s r
    assume ih: "\<And>b c s r. f b c s = Some r \<Longrightarrow> ?P b c s r"
      and eq: "(case b s of Inl e \<Rightarrow> Some (Inl e)
                | Inr s' \<Rightarrow> if c s' then f b c s' else Some (Inr s')) = Some r"
    show "?P b c s r"
    proof (intro impI allI)
      fix s2
      assume b: "b = b1" and c: "c = c1" and r: "R s s2"
      from step[OF r] b have rel: "rel_sum R R (b s) (b2 s2)" by simp
      show "\<exists>r2. do_while b2 c2 s2 = Some r2 \<and> rel_sum R R r r2"
      proof (cases "b s")
        case (Inl e)
        with eq have re: "r = Inl e" by simp
        from rel Inl obtain e2 where e2: "b2 s2 = Inl e2" "R e e2"
          by (cases "b2 s2") auto
        from e2(1) have "do_while b2 c2 s2 = Some (Inl e2)"
          by (subst do_while.simps) simp
        with re e2(2) show ?thesis by simp
      next
        case (Inr s')
        from rel Inr obtain s2' where s2': "b2 s2 = Inr s2'" "R s' s2'"
          by (cases "b2 s2") auto
        from cond[OF s2'(2)] c have cc: "c s' = c2 s2'" by simp
        show ?thesis
        proof (cases "c s'")
          case True
          with Inr eq have "f b c s' = Some r" by simp
          from ih[OF this] b c s2'(2)
          obtain r2 where r2: "do_while b2 c2 s2' = Some r2" "rel_sum R R r r2" by blast
          from s2'(1) True cc r2(1) have "do_while b2 c2 s2 = Some r2"
            by (subst do_while.simps) simp
          with r2(2) show ?thesis by blast
        next
          case False
          with Inr eq have re: "r = Inr s'" by simp
          from s2'(1) False cc have "do_while b2 c2 s2 = Some (Inr s2')"
            by (subst do_while.simps) simp
          with re s2'(2) show ?thesis by simp
        qed
      qed
    qed
  qed
  with R show ?thesis by simp
qed

lemma same_but_fout_sym: "same_but_fout s s' \<Longrightarrow> same_but_fout s' s"
  by (cases s; cases s') (simp add: same_but_fout_def)

lemma same_but_fout_compress_body:
  assumes "same_but_fout u1 u2"
  shows "rel_sum same_but_fout same_but_fout (compress_body api u1) (compress_body api u2)"
  using assms
  by (cases u1; cases u2)
     (auto simp: same_but_fout_def compress_body_def refill_def ffread_def drain_def ffwrite_def
        Let_def split: prod.splits)

lemma same_but_fout_finish_body:
  assumes "same_but_fout u1 u2"
  shows "rel_sum same_but_fout same_but_fout (finish_body api u1) (finish_body api u2)"
  using assms
  by (cases u1; cases u2)
     (auto simp: same_but_fout_def finish_body_def drain_def ffwrite_def
        Let_def split: prod.splits)

lemma same_but_fout_decompress_body:
  assumes "same_but_fout u1 u2"
  shows "rel_sum same_but_fout same_but_fout (decompress_body api u1) (decompress_body api u2)"
  using assms
  by (cases u1; cases u2)
     (auto simp: same_but_fout_def decompress_body_def refill_def ffread_def drain_def ffwrite_def
        Let_def split: prod.splits)

lemma do_while_sim_option:
  assumes R: "R s1 s2"
    and step: "\<And>u1 u2. R u1 u2 \<Longrightarrow> rel_sum R R (b1 u1) (b2 u2)"
    and cond: "\<And>u1 u2. R u1 u2 \<Longrightarrow> c1 u1 = c2 u2"
  shows "rel_option (rel_sum R R) (do_while b1 c1 s1) (do_while b2 c2 s2)"
proof (cases "do_while b1 c1 s1")
  case None
  have "do_while b2 c2 s2 = None"
  proof (rule ccontr)
    assume "do_while b2 c2 s2 \<noteq> None"
    then obtain r2 where r2: "do_while b2 c2 s2 = Some r2" by auto
    have "\<exists>r1. do_while b1 c1 s1 = Some r1 \<and> rel_sum R\<inverse>\<inverse> R\<inverse>\<inverse> r2 r1"
    proof (rule do_while_sim[where R = "R\<inverse>\<inverse>", OF r2])
      show "R\<inverse>\<inverse> s2 s1" using R by simp
      show "rel_sum R\<inverse>\<inverse> R\<inverse>\<inverse> (b2 u1) (b1 u2)" if "R\<inverse>\<inverse> u1 u2" for u1 u2
        using step[of u2 u1] that by (simp add: sum.rel_flip)
      show "c2 u1 = c1 u2" if "R\<inverse>\<inverse> u1 u2" for u1 u2
        using cond[of u2 u1] that by simp
    qed
    with None show False by simp
  qed
  with None show ?thesis by simp
next
  case (Some r1)
  have "\<exists>r2. do_while b2 c2 s2 = Some r2 \<and> rel_sum R R r1 r2"
    by (rule do_while_sim[where R = R, OF Some R]) (rule step, assumption, rule cond)
  then obtain r2 where "do_while b2 c2 s2 = Some r2" "rel_sum R R r1 r2" by blast
  with Some show ?thesis by simp
qed

lemma same_but_fout_fields:
  assumes "same_but_fout s s'"
  shows "in_buf s' = in_buf s" "out_buf s' = out_buf s" "res s' = res s"
    "in_size s' = in_size s" "out_size s' = out_size s" "log s' = log s"
  using assms by (cases s; cases s'; simp add: same_but_fout_def)+

lemma same_but_fout_cond:
  assumes "same_but_fout u1 u2"
  shows "size_in (in_buf u1) = size_in (in_buf u2)" "res u1 = res u2"
  using same_but_fout_fields[OF assms] by simp_all

lemma same_but_fout_error_out:
  assumes "same_but_fout e1 e2"
  shows "report (Some (error_out api e1)) = report (Some (error_out api e2))"
  using same_but_fout_fields[OF assms] by (simp add: report_def error_out_def)

lemma compress_from_report:
  assumes "same_but_fout s1 s2"
  shows "report (compress_from api s1) = report (compress_from api s2)"
proof -
  have l1: "rel_option (rel_sum same_but_fout same_but_fout)
      (compress_loop api s1) (compress_loop api s2)"
    unfolding compress_loop_def
    by (rule do_while_sim_option[OF assms same_but_fout_compress_body])
       (simp_all add: same_but_fout_cond)
  show ?thesis
  proof (cases "compress_loop api s1")
    case None
    with l1 have "compress_loop api s2 = None" by simp
    with None show ?thesis by (simp add: compress_from_def)
  next
    case (Some x1)
    with l1 obtain x2 where x2: "compress_loop api s2 = Some x2"
      "rel_sum same_but_fout same_but_fout x1 x2"
      by (cases "compress_loop api s2") auto
    show ?thesis
    proof (cases x1)
      case (Inl e1)
      with x2(2) obtain e2 where e2: "x2 = Inl e2" "same_but_fout e1 e2" by (cases x2) auto
      from same_but_fout_error_out[OF e2(2)] Some Inl x2(1) e2(1) show ?thesis
        by (simp add: compress_from_def)
    next
      case (Inr t1)
      with x2(2) obtain t2 where t2: "x2 = Inr t2" "same_but_fout t1 t2" by (cases x2) auto
      have l2: "rel_option (rel_sum same_but_fout same_but_fout)
          (finish_loop api t1) (finish_loop api t2)"
        unfolding finish_loop_def
        by (rule do_while_sim_option[OF t2(2) same_but_fout_finish_body])
           (simp_all add: same_but_fout_cond)
      show ?thesis
      proof (cases "finish_loop api t1")
        case None
        with l2 have "finish_loop api t2 = None" by simp
        with None Some Inr x2(1) t2(1) show ?thesis by (simp add: compress_from_def)
      next
        case fl: (Some y1)
        with l2 obtain y2 where y2: "finish_loop api t2 = Some y2"
          "rel_sum same_but_fout same_but_fout y1 y2"
          by (cases "finish_loop api t2") auto
        show ?thesis
        proof (cases y1)
          case (Inl e1)
          with y2(2) obtain e2 where e2: "y2 = Inl e2" "same_but_fout e1 e2" by (cases y2) auto
          from same_but_fout_error_out[OF e2(2)] Some \<open>x1 = Inr t1\<close> x2(1) t2(1) fl Inl y2(1) e2(1)
          show ?thesis by (simp add: compress_from_def)
        next
          case (Inr u1)
          with y2(2) obtain u2 where u2: "y2 = Inr u2" "same_but_fout u1 u2" by (cases y2) auto
          from same_but_fout_fields[OF u2(2)] Some \<open>x1 = Inr t1\<close> x2(1) t2(1) fl Inr y2(1) u2(1)
          show ?thesis by (simp add: compress_from_def report_def)
        qed
      qed
    qed
  qed
qed

lemma decompress_from_report:
  assumes "same_but_fout s1 s2"
  shows "report (decompress_from api s1) = report (decompress_from api s2)"
proof -
  have l1: "rel_option (rel_sum same_but_fout same_but_fout)
      (decompress_loop api s1) (decompress_loop api s2)"
    unfolding decompress_loop_def
    by (rule do_while_sim_option[OF assms same_but_fout_decompress_body])
       (simp_all add: same_but_fout_cond)
  show ?thesis
  proof (cases "decompress_loop api s1")
    case None
    with l1 have "decompress_loop api s2 = None" by simp
    with None show ?thesis by (simp add: decompress_from_def)
  next
    case (Some x1)
    with l1 obtain x2 where x2: "decompress_loop api s2 = Some x2"
      "rel_sum same_but_fout same_but_fout x1 x2"
      by (cases "decompress_loop api s2") auto
    show ?thesis
    proof (cases x1)
      case (Inl e1)
      with x2(2) obtain e2 where e2: "x2 = Inl e2" "same_but_fout e1 e2" by (cases x2) auto
      from same_but_fout_error_out[OF e2(2)] Some Inl x2(1) e2(1) show ?thesis
        by (simp add: decompress_from_def)
    next
      case (Inr t1)
      with x2(2) obtain t2 where t2: "x2 = Inr t2" "same_but_fout t1 t2" by (cases x2) auto
      from same_but_fout_fields[OF t2(2)] Some Inr x2(1) t2(1)
      show ?thesis by (simp add: decompress_from_def report_def)
    qed
  qed
qed

text \<open>
  Claim C10.  \<^verbatim>\<open>ffwrite\<close> returns the requested count whatever the stream did, and what a
  pump reports (its result, its two counters, its actions) does not depend on the output
  stream it is given.  So a run whose writes fail reports success and the full count: on
  a device with room for one byte, compressing three bytes with the store codec exits
  with status 0 and reports 3 bytes written, while one byte reached the file.
\<close>

theorem sink_failures_unseen:
  "fst (ffwrite fo buffer n) = n
   \<and> report (compress_file api in_c out_c fcs fi fo lg)
       = report (compress_file api in_c out_c fcs fi fo2 lg)
   \<and> report (decompress_file api in_d out_d fds fi fo lg)
       = report (decompress_file api in_d out_d fds fi fo2 lg)
   \<and> main_run store_api (env_with [1, 2, 3] \<lparr>written = [], good = True, room = Some 1\<rparr> 8192 4096)
        8 True 6 ''a'' ''a.lzma2''
      = Some \<lparr>exit_code = 0,
               events = [Ev_createCStreamMt 8, Ev_createDStreamMt 8, Ev_initCStream 6 0,
                         Ev_initDStream 0, Ev_open_in ''a'' True, Ev_open_out ''a.lzma2'' True,
                         Ev_stdout ''Compressing \<newline>  a\<newline>    to\<newline>  a.lzma2\<newline>'',
                         Ev_compressStream 0, Ev_compressStream 0, Ev_endStream 0,
                         Ev_stdout_counts ''Compressed: %lld -> %lld\<newline>'' 3 3,
                         Ev_stdout ''Compression SUCCESS.\<newline>'',
                         Ev_fout_flush, Ev_fout_close, Ev_fin_close, Ev_freeCStream,
                         Ev_freeDStream],
               sink = Some \<lparr>written = [1], good = False, room = Some 0\<rparr>\<rparr>"
proof (intro conjI)
  show "fst (ffwrite fo buffer n) = n" by (simp add: ffwrite_def)
  have c: "same_but_fout (compress_init in_c out_c fcs fi fo lg)
      (compress_init in_c out_c fcs fi fo2 lg)"
    by (simp add: same_but_fout_def compress_init_def)
  from compress_from_report[OF c]
  show "report (compress_file api in_c out_c fcs fi fo lg)
       = report (compress_file api in_c out_c fcs fi fo2 lg)"
    by (simp add: compress_file_def)
  have d: "same_but_fout (decompress_init in_d out_d fds fi fo lg)
      (decompress_init in_d out_d fds fi fo2 lg)"
    by (simp add: same_but_fout_def decompress_init_def)
  from decompress_from_report[OF d]
  show "report (decompress_file api in_d out_d fds fi fo lg)
       = report (decompress_file api in_d out_d fds fi fo2 lg)"
    by (simp add: decompress_file_def)
  show "main_run store_api (env_with [1, 2, 3] \<lparr>written = [], good = True, room = Some 1\<rparr> 8192 4096)
        8 True 6 ''a'' ''a.lzma2''
      = Some \<lparr>exit_code = 0,
               events = [Ev_createCStreamMt 8, Ev_createDStreamMt 8, Ev_initCStream 6 0,
                         Ev_initDStream 0, Ev_open_in ''a'' True, Ev_open_out ''a.lzma2'' True,
                         Ev_stdout ''Compressing \<newline>  a\<newline>    to\<newline>  a.lzma2\<newline>'',
                         Ev_compressStream 0, Ev_compressStream 0, Ev_endStream 0,
                         Ev_stdout_counts ''Compressed: %lld -> %lld\<newline>'' 3 3,
                         Ev_stdout ''Compression SUCCESS.\<newline>'',
                         Ev_fout_flush, Ev_fout_close, Ev_fin_close, Ev_freeCStream,
                         Ev_freeDStream],
               sink = Some \<lparr>written = [1], good = False, room = Some 0\<rparr>\<rparr>"
    apply (simp add: main_defs store_defs)
    apply (simp add: run_defs store_defs)
    apply (simp add: cleanup_def numeral_3_eq_3)
    done
qed

section \<open>Byte accounting\<close>












end
